theory Spec2Isabelle
  imports Main "HOL-Library.Multiset"
begin

section \<open>Python values and exceptions\<close>

text \<open>
  The exceptions that the modelled parts of \<^verbatim>\<open>src/main.py\<close> can raise.
  \<^verbatim>\<open>sys.exit(1)\<close> raises \<^verbatim>\<open>SystemExit\<close> with the exit code; the other three are
  raised by list indexing, \<^verbatim>\<open>list.index\<close> and \<^verbatim>\<open>assert\<close>. An uncaught exception ends
  the process.
\<close>

datatype error = SystemExit int | IndexError | ValueError | AssertionError

text \<open>\<^verbatim>\<open>xs[i]\<close> for a non-negative index.\<close>

definition getitem :: "'a list \<Rightarrow> nat \<Rightarrow> error + 'a" where
  "getitem xs i = (if i < length xs then Inr (xs ! i) else Inl IndexError)"

text \<open>
  \<^verbatim>\<open>str.split(sep, maxsplit)\<close> for a one-character separator, scanning from the left:
  \<open>acc\<close> is the piece being collected.
\<close>

fun split_from :: "char \<Rightarrow> nat \<Rightarrow> string \<Rightarrow> string \<Rightarrow> string list" where
  "split_from c n acc [] = [acc]"
| "split_from c 0 acc xs = [acc @ xs]"
| "split_from c (Suc n) acc (x # xs) =
     (if x = c then acc # split_from c n [] xs else split_from c (Suc n) (acc @ [x]) xs)"

text \<open>\<^verbatim>\<open>s.rsplit(sep, maxsplit)\<close>: the same scan from the right end.\<close>

definition rsplit :: "char \<Rightarrow> nat \<Rightarrow> string \<Rightarrow> string list" where
  "rsplit c n s = rev (map rev (split_from c n [] (rev s)))"

text \<open>\<^verbatim>\<open>os.path.join(a, b)\<close> of \<^verbatim>\<open>posixpath\<close>, for two components.\<close>

definition os_path_join :: "string \<Rightarrow> string \<Rightarrow> string" where
  "os_path_join a b =
     (if b \<noteq> [] \<and> hd b = CHR ''/'' then b
      else if a = [] \<or> last a = CHR ''/'' then a @ b
      else a @ ''/'' @ b)"

section \<open>Selecting the call-graph writer\<close>

text \<open>
  Lines 121--123 and 228--230:
  \<^verbatim>\<open>writer = output.rsplit(".", 1)[1]\<close>;
  \<^verbatim>\<open>if writer in ["bz2", "gz"]: writer = output.rsplit(".", 2)[1]\<close>.
\<close>

definition writer_key :: "string \<Rightarrow> error + string" where
  "writer_key output =
     (case getitem (rsplit CHR ''.'' 1 output) 1 of
        Inl e \<Rightarrow> Inl e
      | Inr writer \<Rightarrow>
          if writer \<in> set [''bz2'', ''gz''] then getitem (rsplit CHR ''.'' 2 output) 1
          else Inr writer)"

text \<open>The keys of the two \<^verbatim>\<open>write_methods\<close> tables (lines 110--116 and 220--226).\<close>

definition androcg_write_methods :: "string list" where
  "androcg_write_methods = [''gml'', ''gexf'', ''gpickle'', ''graphml'', ''yaml'', ''net'']"

definition export_write_methods :: "string list" where
  "export_write_methods = [''gml'', ''gexf'', ''graphml'', ''net'']"

subsection \<open>The call-graph-only path\<close>

text \<open>
  What \<^verbatim>\<open>androcg_main\<close> does after the call graph is built (lines 118--129): the lines
  printed, whether the graph was plotted, the files written (writer key and path) and
  the exception that ended the run, if any.
\<close>

record cg_run =
  printed :: "string list"
  plotted :: bool
  written :: "(string \<times> string) list"
  raised :: "error option"

definition androcg_main :: "bool \<Rightarrow> string \<Rightarrow> cg_run" where
  "androcg_main show output =
     (if show then \<lparr>printed = [], plotted = True, written = [], raised = None\<rparr>
      else case writer_key output of
        Inl e \<Rightarrow> \<lparr>printed = [], plotted = False, written = [], raised = Some e\<rparr>
      | Inr writer \<Rightarrow>
          if writer \<notin> set androcg_write_methods
          then \<lparr>printed = [''Could not find a method to export files to '' @ writer @ ''!''],
                 plotted = False, written = [], raised = Some (SystemExit 1)\<rparr>
          else \<lparr>printed = [], plotted = False, written = [(writer, output)], raised = None\<rparr>)"

section \<open>Directed graphs as the graph library keeps them\<close>

text \<open>
  A \<^verbatim>\<open>networkx.DiGraph\<close> without attributes: the nodes in insertion order and the
  edges in insertion order. The library keeps no node and no edge twice and every end
  of an edge is a node; \<open>wf_digraph\<close> says so.
\<close>

type_synonym 'a digraph = "'a list \<times> ('a \<times> 'a) list"

definition wf_digraph :: "'a digraph \<Rightarrow> bool" where
  "wf_digraph G =
     (distinct (fst G) \<and> distinct (snd G)
      \<and> list_all (\<lambda>e. fst e \<in> set (fst G) \<and> snd e \<in> set (fst G)) (snd G))"

definition nodes_of :: "'a digraph \<Rightarrow> 'a list" where
  "nodes_of G = fst G"

text \<open>
  \<^verbatim>\<open>G.edges\<close> walks the nodes in node order and, for each node, its successors in the
  order their edges were added.
\<close>

definition edges_of :: "'a digraph \<Rightarrow> ('a \<times> 'a) list" where
  "edges_of G = concat (map (\<lambda>u. filter (\<lambda>e. fst e = u) (snd G)) (fst G))"

definition add_node :: "'a \<Rightarrow> 'a digraph \<Rightarrow> 'a digraph" where
  "add_node n G = (if n \<in> set (fst G) then G else (fst G @ [n], snd G))"

definition add_edge :: "'a \<times> 'a \<Rightarrow> 'a digraph \<Rightarrow> 'a digraph" where
  "add_edge e G =
     (let G1 = add_node (snd e) (add_node (fst e) G)
      in if e \<in> set (snd G1) then G1 else (fst G1, snd G1 @ [e]))"

text \<open>
  The copying relabel of the library: a new graph receives the images of the nodes
  (\<^verbatim>\<open>add_nodes_from\<close>), then the images of the edges (\<^verbatim>\<open>add_edges_from\<close>).
\<close>

definition relabel_with :: "('a \<Rightarrow> 'b) \<Rightarrow> 'a digraph \<Rightarrow> 'b digraph" where
  "relabel_with f G =
     fold add_edge (map (\<lambda>e. (f (fst e), f (snd e))) (edges_of G))
       (fold add_node (map f (nodes_of G)) ([], []))"

text \<open>The first position of \<open>x\<close> in \<open>xs\<close> (\<open>length xs\<close> when it is absent).\<close>

fun index_of :: "'a \<Rightarrow> 'a list \<Rightarrow> nat" where
  "index_of x [] = 0"
| "index_of x (y # ys) = (if x = y then 0 else Suc (index_of x ys))"

text \<open>\<^verbatim>\<open>xs.index(x)\<close>, which raises \<^verbatim>\<open>ValueError\<close> when \<open>x\<close> is not in the list.\<close>

definition list_index :: "'a list \<Rightarrow> 'a \<Rightarrow> error + nat" where
  "list_index xs x = (if x \<in> set xs then Inr (index_of x xs) else Inl ValueError)"

text \<open>
  \<^verbatim>\<open>nx.convert_node_labels_to_integers(G)\<close> relabels with
  \<^verbatim>\<open>dict(zip(G.nodes(), range(N)))\<close>: every node becomes its position.
\<close>

definition convert_node_labels_to_integers :: "'a digraph \<Rightarrow> nat digraph" where
  "convert_node_labels_to_integers G = relabel_with (\<lambda>n. index_of n (nodes_of G)) G"

text \<open>\<^verbatim>\<open>nx.relabel_nodes(G, mapping)\<close> uses \<^verbatim>\<open>mapping.get(n, n)\<close>.\<close>

definition relabel_nodes :: "nat digraph \<Rightarrow> (nat \<rightharpoonup> nat) \<Rightarrow> nat digraph" where
  "relabel_nodes G mapping =
     relabel_with (\<lambda>n. case mapping n of Some m \<Rightarrow> m | None \<Rightarrow> n) G"

section \<open>Methods and their aggregated control-flow graphs\<close>

text \<open>
  Modelled from the spec: \<^verbatim>\<open>method2dotaggregated\<close> is not among the source files. Its
  result is taken as data: the nodes of the aggregated graph in node order, each with
  its \<^verbatim>\<open>features\<close> attribute when it has one (a vector of integers), and the edges in
  the order \<^verbatim>\<open>G.edges\<close> lists them. Node ids are integers.
\<close>

type_synonym feature = "int list"

record acfg =
  cfg_nodes :: "(int \<times> feature option) list"
  cfg_edges :: "(int \<times> int) list"

text \<open>\<^verbatim>\<open>nx.get_node_attributes(cfg, "features")\<close>: the nodes that carry the attribute.\<close>

fun get_node_attributes :: "(int \<times> feature option) list \<Rightarrow> (int \<times> feature) list" where
  "get_node_attributes [] = []"
| "get_node_attributes ((n, None) # ns) = get_node_attributes ns"
| "get_node_attributes ((n, Some f) # ns) = (n, f) # get_node_attributes ns"

record encoded_method =
  get_class_name :: string
  get_name :: string
  get_descriptor :: string
  n_instructions :: nat
  cfg :: acfg

text \<open>\<^verbatim>\<open>"{}{}{}".format(class_name, name, descriptor)\<close> (lines 288 and 307).\<close>

definition msig :: "encoded_method \<Rightarrow> string" where
  "msig m = get_class_name m @ get_name m @ get_descriptor m"

section \<open>Text written to the corpus file\<close>

definition dq :: char where
  "dq = CHR 0x22"

definition nl :: char where
  "nl = CHR 0x0A"

definition digit_char :: "nat \<Rightarrow> char" where
  "digit_char d =
     (if d = 0 then CHR ''0'' else if d = 1 then CHR ''1'' else if d = 2 then CHR ''2''
      else if d = 3 then CHR ''3'' else if d = 4 then CHR ''4'' else if d = 5 then CHR ''5''
      else if d = 6 then CHR ''6'' else if d = 7 then CHR ''7'' else if d = 8 then CHR ''8''
      else CHR ''9'')"

text \<open>\<^verbatim>\<open>str(n)\<close> for a Python integer: decimal, no leading zero, a minus sign.\<close>

fun str_nat :: "nat \<Rightarrow> string" where
  "str_nat n = (if n < 10 then [digit_char n] else str_nat (n div 10) @ [digit_char (n mod 10)])"

definition str_int :: "int \<Rightarrow> string" where
  "str_int i = (if i < 0 then CHR ''-'' # str_nat (nat (- i)) else str_nat (nat i))"

text \<open>\<^verbatim>\<open>sep.join(items)\<close>.\<close>

fun join :: "string \<Rightarrow> string list \<Rightarrow> string" where
  "join sep [] = []"
| "join sep [x] = x"
| "join sep (x # y # ys) = x @ sep @ join sep (y # ys)"

text \<open>
  \<^verbatim>\<open>str(xs)\<close> and \<^verbatim>\<open>json.dumps(xs)\<close> of a list of integers coincide:
  the items between brackets, separated by a comma and a space.
\<close>

definition str_list :: "('a \<Rightarrow> string) \<Rightarrow> 'a list \<Rightarrow> string" where
  "str_list item xs = ''['' @ join '', '' (map item xs) @ '']''"

definition hex_char :: "nat \<Rightarrow> char" where
  "hex_char d =
     (if d < 10 then digit_char d else if d = 10 then CHR ''a'' else if d = 11 then CHR ''b''
      else if d = 12 then CHR ''c'' else if d = 13 then CHR ''d'' else if d = 14 then CHR ''e''
      else CHR ''f'')"

text \<open>
  The string encoder of \<^verbatim>\<open>json.dumps\<close> (with \<^verbatim>\<open>ensure_ascii\<close>): the quote, the
  backslash and five control characters have short escapes; every other character
  outside the range from the space to the tilde is written \<^verbatim>\<open>\u00xx\<close>.
\<close>

definition json_escape :: "char \<Rightarrow> string" where
  "json_escape c =
     (if c = dq then [CHR 0x5C, dq]
      else if c = CHR 0x5C then [CHR 0x5C, CHR 0x5C]
      else if c = CHR 0x0A then [CHR 0x5C, CHR ''n'']
      else if c = CHR 0x0D then [CHR 0x5C, CHR ''r'']
      else if c = CHR 0x09 then [CHR 0x5C, CHR ''t'']
      else if c = CHR 0x08 then [CHR 0x5C, CHR ''b'']
      else if c = CHR 0x0C then [CHR 0x5C, CHR ''f'']
      else if (of_char c :: nat) < 32 \<or> 126 < (of_char c :: nat)
        then [CHR 0x5C, CHR ''u'', CHR ''0'', CHR ''0'',
              hex_char ((of_char c :: nat) div 16), hex_char ((of_char c :: nat) mod 16)]
      else [c])"

definition json_string :: "string \<Rightarrow> string" where
  "json_string s = dq # concat (map json_escape s) @ [dq]"

text \<open>
  \<^verbatim>\<open>json.dumps({"edges": [cfg_edges_s, cfg_edges_t], "features": cfg_features})\<close>:
  the integer keys of the feature dictionary are written as strings.
\<close>

definition json_dumps_data :: "int list \<Rightarrow> int list \<Rightarrow> (int \<times> feature) list \<Rightarrow> string" where
  "json_dumps_data cfg_edges_s cfg_edges_t cfg_features =
     ''{'' @ json_string ''edges'' @ '': ['' @ str_list str_int cfg_edges_s @ '', ''
       @ str_list str_int cfg_edges_t @ ''], '' @ json_string ''features'' @ '': {''
       @ join '', '' (map (\<lambda>(n, f). json_string (str_int n) @ '': '' @ str_list str_int f)
            cfg_features)
       @ ''}}''"

section \<open>The corpus export\<close>

text \<open>
  The local variables of \<^verbatim>\<open>export_apps_to_format\<close> that the loops change, and \<open>fd\<close>, the text
  written to \<^verbatim>\<open>data.json\<close> so far. \<open>methods\<close> is the ordered dictionary. The call
  graph \<^verbatim>\<open>CG\<close> travels beside this record, since its node type changes at the first
  relabelling.
\<close>

record vars =
  methods :: "(string \<times> nat) list"
  method_names :: "string list"
  first_iteration :: bool
  rename_nodes :: "nat \<rightharpoonup> nat"
  num_local_functions :: nat
  counter :: nat
  cg_edges_s :: "nat list"
  cg_edges_t :: "nat list"
  fd :: string

text \<open>\<^verbatim>\<open>d[k] = v\<close> on an ordered dictionary: a present key keeps its place.\<close>

fun dict_set :: "('k \<times> 'v) list \<Rightarrow> 'k \<Rightarrow> 'v \<Rightarrow> ('k \<times> 'v) list" where
  "dict_set [] k v = [(k, v)]"
| "dict_set (p # ps) k v = (if fst p = k then (k, v) # ps else p # dict_set ps k v)"

text \<open>
  A run that raises leaves the exception and the text of \<^verbatim>\<open>data.json\<close> at that moment
  (the \<^verbatim>\<open>with\<close> block closes the file).
\<close>

type_synonym 'a result = "(error \<times> string) + 'a"

text \<open>
  Lines 286--325: the loop over the methods of one DEX object. \<open>fx\<close> is the compiled
  filter (\<^verbatim>\<open>methods_filter_expr\<close>), given by its \<^verbatim>\<open>search\<close>.
\<close>

fun dump_cfgs :: "(string \<Rightarrow> bool) option \<Rightarrow> encoded_method list \<Rightarrow> vars \<Rightarrow> vars result" where
  "dump_cfgs fx [] s = Inr s"
| "dump_cfgs fx (m # ms) s =
     (if (case fx of None \<Rightarrow> False | Some search \<Rightarrow> \<not> search (msig m)) then dump_cfgs fx ms s
      else if n_instructions m = 0 then dump_cfgs fx ms s
      else
        let method_name = msig m;
            method_id = length (methods s);
            s1 = s\<lparr>methods := dict_set (methods s) method_name method_id,
                   method_names := method_names s @ [method_name]\<rparr>;
            cfg_features = get_node_attributes (cfg_nodes (cfg m))
        in if length cfg_features \<noteq> length (cfg_nodes (cfg m))
           then Inl (AssertionError, fd s1)
           else
             let data = json_dumps_data (map fst (cfg_edges (cfg m)))
                          (map snd (cfg_edges (cfg m))) cfg_features;
                 s2 = (if \<not> first_iteration s1 then s1\<lparr>fd := fd s1 @ [CHR '','', nl]\<rparr>
                       else s1\<lparr>first_iteration := False\<rparr>)
             in dump_cfgs fx ms (s2\<lparr>fd := fd s2 @ data\<rparr>))"

text \<open>
  Lines 355--362: the walk over \<^verbatim>\<open>range(len(cg_nodes_by_label))\<close>, here the list
  \<open>is\<close> of indices still to visit.
\<close>

fun relabel_walk :: "string list \<Rightarrow> bool list \<Rightarrow> nat list \<Rightarrow> vars \<Rightarrow> vars result" where
  "relabel_walk labels exts [] s = Inr s"
| "relabel_walk labels exts (i # is) s =
     (case getitem exts i of
        Inl e \<Rightarrow> Inl (e, fd s)
      | Inr external \<Rightarrow>
          (case getitem labels i of
             Inl e \<Rightarrow> Inl (e, fd s)
           | Inr label \<Rightarrow>
               if external
               then relabel_walk labels exts is
                      (s\<lparr>rename_nodes := (rename_nodes s)(i \<mapsto> counter s),
                         counter := counter s + 1,
                         method_names := method_names s @ [label]\<rparr>)
               else (case list_index (method_names s) label of
                       Inl e \<Rightarrow> Inl (e, fd s)
                     | Inr k \<Rightarrow>
                         relabel_walk labels exts is
                           (s\<lparr>rename_nodes := (rename_nodes s)(i \<mapsto> k)\<rparr>))))"

text \<open>
  The terminator of lines 370--371:
  \<^verbatim>\<open>'],\n "cg_edges": [' + str(cg_edges_s) + "," + str(cg_edges_t) + "],\n"\<close> and
  \<^verbatim>\<open>'"method_names": ' + json.dumps(method_names) + "}"\<close>.
\<close>

definition terminator :: "nat list \<Rightarrow> nat list \<Rightarrow> string list \<Rightarrow> string" where
  "terminator es et names =
     ''],'' @ [nl] @ '' '' @ json_string ''cg_edges'' @ '': ['' @ str_list str_nat es @ '',''
       @ str_list str_nat et @ ''],'' @ [nl]
       @ json_string ''method_names'' @ '': '' @ str_list json_string names @ ''}''"

text \<open>
  Lines 249--374: the body of the loop over the DEX objects, for one DEX object with
  methods \<open>ms\<close>. The decompiler and the jar side effects (lines 252--281) write nothing
  to the corpus and are left out.
\<close>

definition dex_iteration ::
  "(string \<Rightarrow> bool) option \<Rightarrow> string list \<Rightarrow> bool list \<Rightarrow> 'g digraph \<times> vars \<Rightarrow> encoded_method list
     \<Rightarrow> (nat digraph \<times> vars) result" where
  "dex_iteration fx labels exts Gs ms =
     (case dump_cfgs fx ms ((snd Gs)\<lparr>first_iteration := True\<rparr>) of
        Inl e \<Rightarrow> Inl e
      | Inr s1 \<Rightarrow>
          let s2 = s1\<lparr>rename_nodes := Map.empty,
                      num_local_functions := length (method_names s1),
                      counter := length (method_names s1)\<rparr>;
              G1 = convert_node_labels_to_integers (fst Gs)
          in case relabel_walk labels exts [0..<length labels] s2 of
               Inl e \<Rightarrow> Inl e
             | Inr s3 \<Rightarrow>
                 let G2 = relabel_nodes G1 (rename_nodes s3);
                     s4 = s3\<lparr>cg_edges_s := map fst (edges_of G2),
                             cg_edges_t := map snd (edges_of G2)\<rparr>
                 in Inr (G2, s4\<lparr>fd := fd s4
                            @ terminator (cg_edges_s s4) (cg_edges_t s4) (method_names s4)\<rparr>))"

fun dex_loop ::
  "(string \<Rightarrow> bool) option \<Rightarrow> string list \<Rightarrow> bool list \<Rightarrow> encoded_method list list
     \<Rightarrow> nat digraph \<times> vars \<Rightarrow> (nat digraph \<times> vars) result" where
  "dex_loop fx labels exts [] Gs = Inr Gs"
| "dex_loop fx labels exts (d # ds) Gs =
     (case dex_iteration fx labels exts Gs d of
        Inl e \<Rightarrow> Inl e
      | Inr Gs' \<Rightarrow> dex_loop fx labels exts ds Gs')"

text \<open>
  What the analysis hands to the export: the call graph with its two node tables
  (\<^verbatim>\<open>get_modified_call_graph\<close>, line 212) and the methods of every DEX object
  (\<^verbatim>\<open>get_objects_dex\<close>, line 248).
\<close>

record 'g app =
  call_graph :: "'g digraph"
  cg_nodes_by_label :: "string list"
  cg_nodes_by_external :: "bool list"
  dex_objects :: "encoded_method list list"

text \<open>
  The variables when \<^verbatim>\<open>data.json\<close> has been opened and the opening fragment written
  (lines 244--247). The directory was recreated just before, so the file starts empty.
  Variables the source assigns later hold placeholders until then.
\<close>

definition opened :: vars where
  "opened = \<lparr>methods = [], method_names = [], first_iteration = True,
      rename_nodes = Map.empty, num_local_functions = 0, counter = 0,
      cg_edges_s = [], cg_edges_t = [],
      fd = ''{'' @ json_string ''acfg_list'' @ '': [''\<rparr>"

text \<open>
  Lines 244--374. The first pass of the loop takes the call graph as the analysis built
  it; the later passes take the graph the pass before left in \<^verbatim>\<open>CG\<close>.
\<close>

definition write_corpus :: "(string \<Rightarrow> bool) option \<Rightarrow> 'g app \<Rightarrow> vars result" where
  "write_corpus fx a =
     (case dex_objects a of
        [] \<Rightarrow> Inr opened
      | d # ds \<Rightarrow>
          (case dex_iteration fx (cg_nodes_by_label a) (cg_nodes_by_external a)
                  (call_graph a, opened) d of
             Inl e \<Rightarrow> Inl e
           | Inr Gs \<Rightarrow>
               (case dex_loop fx (cg_nodes_by_label a) (cg_nodes_by_external a) ds Gs of
                  Inl e \<Rightarrow> Inl e
                | Inr Gs' \<Rightarrow> Inr (snd Gs'))))"

text \<open>
  The outcome of an export: the exception that ended it (if any), the call-graph file
  written (writer key and path) and the text of \<^verbatim>\<open>data.json\<close> (\<open>None\<close> when the file
  was never opened).
\<close>

record outcome =
  status :: "error option"
  cg_file :: "(string \<times> string) option"
  data_json :: "string option"

text \<open>
  Lines 192--194: no pattern, or an empty one, means no filter; \<open>re_search p\<close> stands
  for \<^verbatim>\<open>re.compile(p).search\<close>.
\<close>

definition methods_filter_expr ::
  "(string \<Rightarrow> string \<Rightarrow> bool) \<Rightarrow> string option \<Rightarrow> (string \<Rightarrow> bool) option" where
  "methods_filter_expr re_search methods_filter =
     (case methods_filter of
        None \<Rightarrow> None
      | Some p \<Rightarrow> if p = [] then None else Some (re_search p))"

text \<open>
  \<^verbatim>\<open>export_apps_to_format(filename, s, output, methods_filter, jar, decompiler_type, form)\<close>:
  \<open>a\<close> is what the session \<^verbatim>\<open>s\<close> yields for \<^verbatim>\<open>filename\<close>. Line 198 fixes the path
  of the call-graph file; lines 228--234 compute its format key, check it and write the
  file, and only then is the corpus written (lines 237--374). The parameters \<^verbatim>\<open>jar\<close>,
  \<^verbatim>\<open>decompiler_type\<close> and \<^verbatim>\<open>form\<close> are there as in the source: \<^verbatim>\<open>form\<close> is never
  read, the decompiler calls are left out. The writer of the graph library is taken to
  succeed; the steps before line 198 (recreating the directory, compiling the pattern,
  the analysis) are not part of the model.
\<close>

definition export_apps_to_format ::
  "(string \<Rightarrow> string \<Rightarrow> bool) \<Rightarrow> 'g app \<Rightarrow> string \<Rightarrow> string option \<Rightarrow> bool \<Rightarrow> string option
     \<Rightarrow> string option \<Rightarrow> outcome" where
  "export_apps_to_format re_search a output methods_filter jar decompiler_type form =
     (let fx = methods_filter_expr re_search methods_filter;
          cg_output = os_path_join output ''callgraph.gml''
      in case writer_key cg_output of
        Inl e \<Rightarrow> \<lparr>status = Some e, cg_file = None, data_json = None\<rparr>
      | Inr writer \<Rightarrow>
          if writer \<notin> set export_write_methods
          then \<lparr>status = Some (SystemExit 1), cg_file = None, data_json = None\<rparr>
          else (case write_corpus fx a of
                  Inl e \<Rightarrow> \<lparr>status = Some (fst e), cg_file = Some (writer, cg_output),
                             data_json = Some (snd e)\<rparr>
                | Inr s \<Rightarrow> \<lparr>status = None, cg_file = Some (writer, cg_output),
                             data_json = Some (fd s)\<rparr>))"

section \<open>Well-formed JSON texts\<close>

text \<open>
  A recogniser for the JSON grammar (RFC 8259), reading one character at a time: the
  state says what may come next, the stack which arrays and objects are open.
\<close>

datatype jctx = InArray | InObject

datatype jstate =
    Value | ArrayStart | ObjectStart | Key | Colon | AfterValue
  | InString bool | Escape bool | Hex nat bool
  | Minus | Zero | IntDigits | FracStart | FracDigits | ExpStart | ExpSign | ExpDigits
  | Literal string

definition ws :: "char \<Rightarrow> bool" where
  "ws c = (c = CHR '' '' \<or> c = CHR 0x09 \<or> c = CHR 0x0A \<or> c = CHR 0x0D)"

definition is_digit :: "char \<Rightarrow> bool" where
  "is_digit c = (c \<in> set ''0123456789'')"

definition is_hex :: "char \<Rightarrow> bool" where
  "is_hex c = (c \<in> set ''0123456789abcdefABCDEF'')"

definition begin_value :: "jctx list \<Rightarrow> char \<Rightarrow> (jstate \<times> jctx list) option" where
  "begin_value st c =
     (if c = CHR ''{'' then Some (ObjectStart, InObject # st)
      else if c = CHR ''['' then Some (ArrayStart, InArray # st)
      else if c = dq then Some (InString False, st)
      else if c = CHR ''-'' then Some (Minus, st)
      else if c = CHR ''0'' then Some (Zero, st)
      else if is_digit c then Some (IntDigits, st)
      else if c = CHR ''t'' then Some (Literal ''rue'', st)
      else if c = CHR ''f'' then Some (Literal ''alse'', st)
      else if c = CHR ''n'' then Some (Literal ''ull'', st)
      else None)"

definition close_array :: "jctx list \<Rightarrow> (jstate \<times> jctx list) option" where
  "close_array st = (case st of InArray # r \<Rightarrow> Some (AfterValue, r) | _ \<Rightarrow> None)"

definition close_object :: "jctx list \<Rightarrow> (jstate \<times> jctx list) option" where
  "close_object st = (case st of InObject # r \<Rightarrow> Some (AfterValue, r) | _ \<Rightarrow> None)"

definition after_value :: "jctx list \<Rightarrow> char \<Rightarrow> (jstate \<times> jctx list) option" where
  "after_value st c =
     (if ws c then Some (AfterValue, st)
      else if c = CHR '','' then
        (case st of [] \<Rightarrow> None | InArray # r \<Rightarrow> Some (Value, st) | InObject # r \<Rightarrow> Some (Key, st))
      else if c = CHR '']'' then close_array st
      else if c = CHR ''}'' then close_object st
      else None)"

fun jstep :: "jstate \<times> jctx list \<Rightarrow> char \<Rightarrow> (jstate \<times> jctx list) option" where
  "jstep (Value, st) c = (if ws c then Some (Value, st) else begin_value st c)"
| "jstep (ArrayStart, st) c =
     (if ws c then Some (ArrayStart, st)
      else if c = CHR '']'' then close_array st else begin_value st c)"
| "jstep (ObjectStart, st) c =
     (if ws c then Some (ObjectStart, st)
      else if c = CHR ''}'' then close_object st
      else if c = dq then Some (InString True, st) else None)"
| "jstep (Key, st) c =
     (if ws c then Some (Key, st) else if c = dq then Some (InString True, st) else None)"
| "jstep (Colon, st) c =
     (if ws c then Some (Colon, st) else if c = CHR '':'' then Some (Value, st) else None)"
| "jstep (AfterValue, st) c = after_value st c"
| "jstep (InString k, st) c =
     (if c = dq then Some (if k then Colon else AfterValue, st)
      else if c = CHR 0x5C then Some (Escape k, st)
      else if (of_char c :: nat) < 32 then None
      else Some (InString k, st))"
| "jstep (Escape k, st) c =
     (if c \<in> set [dq, CHR 0x5C, CHR ''/'', CHR ''b'', CHR ''f'', CHR ''n'', CHR ''r'', CHR ''t'']
      then Some (InString k, st)
      else if c = CHR ''u'' then Some (Hex 4 k, st) else None)"
| "jstep (Hex n k, st) c =
     (if is_hex c then Some (if n \<le> 1 then InString k else Hex (n - 1) k, st) else None)"
| "jstep (Minus, st) c =
     (if c = CHR ''0'' then Some (Zero, st)
      else if is_digit c then Some (IntDigits, st) else None)"
| "jstep (Zero, st) c =
     (if c = CHR ''.'' then Some (FracStart, st)
      else if c = CHR ''e'' \<or> c = CHR ''E'' then Some (ExpStart, st)
      else after_value st c)"
| "jstep (IntDigits, st) c =
     (if is_digit c then Some (IntDigits, st)
      else if c = CHR ''.'' then Some (FracStart, st)
      else if c = CHR ''e'' \<or> c = CHR ''E'' then Some (ExpStart, st)
      else after_value st c)"
| "jstep (FracStart, st) c = (if is_digit c then Some (FracDigits, st) else None)"
| "jstep (FracDigits, st) c =
     (if is_digit c then Some (FracDigits, st)
      else if c = CHR ''e'' \<or> c = CHR ''E'' then Some (ExpStart, st)
      else after_value st c)"
| "jstep (ExpStart, st) c =
     (if c = CHR ''+'' \<or> c = CHR ''-'' then Some (ExpSign, st)
      else if is_digit c then Some (ExpDigits, st) else None)"
| "jstep (ExpSign, st) c = (if is_digit c then Some (ExpDigits, st) else None)"
| "jstep (ExpDigits, st) c =
     (if is_digit c then Some (ExpDigits, st) else after_value st c)"
| "jstep (Literal r, st) c =
     (case r of
        [] \<Rightarrow> None
      | x # xs \<Rightarrow> if c = x then Some (if xs = [] then AfterValue else Literal xs, st) else None)"

fun jrun :: "jstate \<times> jctx list \<Rightarrow> string \<Rightarrow> (jstate \<times> jctx list) option" where
  "jrun q [] = Some q"
| "jrun q (c # cs) = (case jstep q c of None \<Rightarrow> None | Some q' \<Rightarrow> jrun q' cs)"

text \<open>The states in which a value is complete: a number has no closing character.\<close>

definition complete :: "jstate \<Rightarrow> bool" where
  "complete q = (q \<in> set [AfterValue, Zero, IntDigits, FracDigits, ExpDigits])"

definition json_valid :: "string \<Rightarrow> bool" where
  "json_valid s =
     (case jrun (Value, []) s of
        Some (q, st) \<Rightarrow> complete q \<and> st = []
      | None \<Rightarrow> False)"

section \<open>Vocabulary of the claims\<close>

text \<open>A method passes the filter when there is none or when the pattern is found in its signature.\<close>

definition passes :: "(string \<Rightarrow> bool) option \<Rightarrow> encoded_method \<Rightarrow> bool" where
  "passes fx m = (case fx of None \<Rightarrow> True | Some search \<Rightarrow> search (msig m))"

text \<open>A small application: one method \<open>A\<close> whose only call goes to the external target \<open>X\<close>.\<close>

definition method_A :: encoded_method where
  "method_A = \<lparr>get_class_name = ''A'', get_name = [], get_descriptor = [], n_instructions = 1,
      cfg = \<lparr>cfg_nodes = [(0, Some [1])], cfg_edges = []\<rparr>\<rparr>"

definition app_A_calls_X :: "nat app" where
  "app_A_calls_X = \<lparr>call_graph = ([0, 1], [(0, 1)]), cg_nodes_by_label = [''A'', ''X''],
      cg_nodes_by_external = [False, True], dex_objects = [[method_A]]\<rparr>"

text \<open>
  The methods of one DEX object that are exported: those that pass the filter and have at
  least one instruction (lines 287--291 and 305--306), in processing order.
\<close>

definition exported :: "(string \<Rightarrow> bool) option \<Rightarrow> encoded_method list \<Rightarrow> encoded_method list" where
  "exported fx ms = filter (\<lambda>m. passes fx m \<and> 0 < n_instructions m) ms"

text \<open>The check of line 319 on one method.\<close>

definition consistent :: "encoded_method \<Rightarrow> bool" where
  "consistent m = (length (get_node_attributes (cfg_nodes (cfg m))) = length (cfg_nodes (cfg m)))"

text \<open>The entry that lines 314--320 and 325 write for one method.\<close>

definition entry :: "encoded_method \<Rightarrow> string" where
  "entry m = json_dumps_data (map fst (cfg_edges (cfg m))) (map snd (cfg_edges (cfg m)))
               (get_node_attributes (cfg_nodes (cfg m)))"

text \<open>
  The text a list of entries adds to the file, with the comma and newline of lines
  321--322 before every entry but the first one written since the flag was set.
\<close>

fun entries :: "bool \<Rightarrow> string list \<Rightarrow> string" where
  "entries first [] = []"
| "entries first (e # es) = (if first then e else [CHR '','', nl] @ e) @ entries False es"

text \<open>Lines 308--309 for a list of signatures: each receives the size of the dictionary.\<close>

definition register :: "string list \<Rightarrow> (string \<times> nat) list \<Rightarrow> (string \<times> nat) list" where
  "register names d = fold (\<lambda>name d. dict_set d name (length d)) names d"

text \<open>A method whose graph has a node without features, and an application holding it.\<close>

definition method_bad :: encoded_method where
  "method_bad = \<lparr>get_class_name = ''B'', get_name = [], get_descriptor = [], n_instructions = 2,
      cfg = \<lparr>cfg_nodes = [(0, Some [1]), (1, None)], cfg_edges = [(0, 1)]\<rparr>\<rparr>"

definition app_bad :: "nat app" where
  "app_bad = app_A_calls_X\<lparr>dex_objects := [[method_A, method_bad]]\<rparr>"

text \<open>
  What holds throughout the walk: the counter is the length of the name table, and every
  id handed out so far indexes the label of its node in the name table.
\<close>

definition walk_inv :: "string list \<Rightarrow> vars \<Rightarrow> bool" where
  "walk_inv labels s =
     (counter s = length (method_names s)
      \<and> (\<forall>i k. rename_nodes s i = Some k
            \<longrightarrow> k < length (method_names s) \<and> method_names s ! k = labels ! i))"

text \<open>
  The id a node of the input graph ends with: its position (the first renaming), sent
  through \<^verbatim>\<open>rename_nodes\<close> with \<^verbatim>\<open>mapping.get(n, n)\<close> (the second).
\<close>

definition node_id :: "'g digraph \<Rightarrow> vars \<Rightarrow> 'g \<Rightarrow> nat" where
  "node_id G s u =
     (case rename_nodes s (index_of u (nodes_of G)) of
        Some k \<Rightarrow> k
      | None \<Rightarrow> index_of u (nodes_of G))"

text \<open>A call graph with three nodes and four edges, and a second exported method.\<close>

definition graph_3 :: "string digraph" where
  "graph_3 = ([''x'', ''a'', ''b''], [(''a'', ''b''), (''b'', ''x''), (''a'', ''x''), (''b'', ''a'')])"

definition method_B :: encoded_method where
  "method_B = \<lparr>get_class_name = ''B'', get_name = [], get_descriptor = [], n_instructions = 2,
      cfg = \<lparr>cfg_nodes = [(0, Some [4]), (1, Some [5])], cfg_edges = [(0, 1)]\<rparr>\<rparr>"

text \<open>The number of entries of the node tables that are flagged external.\<close>

definition n_external :: "string list \<Rightarrow> bool list \<Rightarrow> nat" where
  "n_external labels exts = length (filter (\<lambda>i. exts ! i) [0..<length labels])"

text \<open>
  The bound of claim C2 as it is worded: every id in the two call-graph edge lists, and
  every id in the edge lists of every exported method's graph, is below the length of
  \<^verbatim>\<open>method_names\<close>.
\<close>

definition edge_ids_have_names :: "(string \<Rightarrow> bool) option \<Rightarrow> 'g app \<Rightarrow> vars \<Rightarrow> bool" where
  "edge_ids_have_names fx a s =
     (list_all (\<lambda>i. i < length (method_names s)) (cg_edges_s s @ cg_edges_t s)
      \<and> list_all
          (\<lambda>m. list_all (\<lambda>e. fst e < int (length (method_names s))
                             \<and> snd e < int (length (method_names s)))
                  (cfg_edges (cfg m)))
          (concat (map (exported fx) (dex_objects a))))"

text \<open>
  An application with one method whose graph has three nodes, the only node of its call
  graph.
\<close>

definition method_C :: encoded_method where
  "method_C = \<lparr>get_class_name = ''C'', get_name = [], get_descriptor = [], n_instructions = 5,
      cfg = \<lparr>cfg_nodes = [(0, Some [1]), (1, Some [2]), (2, Some [3])],
              cfg_edges = [(0, 1), (1, 2)]\<rparr>\<rparr>"

definition app_C :: "nat app" where
  "app_C = \<lparr>call_graph = ([0], []), cg_nodes_by_label = [''C''],
      cg_nodes_by_external = [False], dex_objects = [[method_C]]\<rparr>"

text \<open>The same application with a second DEX object that holds no method.\<close>

definition app_two_dex :: "nat app" where
  "app_two_dex = app_A_calls_X\<lparr>dex_objects := [[method_A], []]\<rparr>"

text \<open>The states from which a digit starts a number.\<close>

definition num_start :: "jstate \<Rightarrow> bool" where
  "num_start q = (q = Value \<or> q = ArrayStart \<or> q = Minus)"

text \<open>
  A text renders a value when the recogniser reads it as one complete value, from the
  state that expects a value and from the state after an opening bracket.
\<close>

definition renders :: "string \<Rightarrow> bool" where
  "renders t = (\<forall>st. \<exists>q. complete q \<and> jrun (Value, st) t = Some (q, st)
                        \<and> jrun (ArrayStart, st) t = Some (q, st))"

text \<open>One member of the feature dictionary: the key, a colon, the vector.\<close>

definition member_text :: "int \<times> feature \<Rightarrow> string" where
  "member_text p = json_string (str_int (fst p)) @ '': '' @ str_list str_int (snd p)"

text \<open>The small application without any DEX object.\<close>

text \<open>The same application with an empty DEX object before the one that holds \<open>A\<close>.\<close>

definition app_empty_dex_first :: "nat app" where
  "app_empty_dex_first = app_A_calls_X\<lparr>dex_objects := [[], [method_A]]\<rparr>"

definition app_no_dex :: "nat app" where
  "app_no_dex = app_A_calls_X\<lparr>dex_objects := []\<rparr>"

text \<open>
  An application whose call graph has two external nodes and no method that passes the
  filter \<open>never\<close>.
\<close>

definition app_externals :: "nat app" where
  "app_externals = \<lparr>call_graph = ([0, 1], [(1, 0)]), cg_nodes_by_label = [''X'', ''Y''],
      cg_nodes_by_external = [True, True], dex_objects = [[method_A]]\<rparr>"

text \<open>A compiled filter that no signature matches.\<close>

definition never :: "(string \<Rightarrow> bool) option" where
  "never = Some (\<lambda>t. False)"

section \<open>Facts about the writer selection\<close>

lemma split_from_no_sep:
  "c \<notin> set xs \<Longrightarrow> split_from c n acc xs = [acc @ xs]"
proof (induction xs arbitrary: acc)
  case Nil
  then show ?case by simp
next
  case (Cons x xs)
  then show ?case by (cases n) auto
qed

lemma split_from_first_sep:
  "c \<notin> set xs \<Longrightarrow>
   split_from c (Suc n) acc (xs @ c # ys) = (acc @ xs) # split_from c n [] ys"
  by (induction xs arbitrary: acc) auto

lemma rsplit_1_last_dot:
  assumes "c \<notin> set ext"
  shows "rsplit c (Suc 0) (base @ c # ext) = [base, ext]"
proof -
  have "split_from c (Suc 0) [] (rev ext @ c # rev base) = [rev ext, rev base]"
    using assms split_from_first_sep [of c "rev ext" 0 "[]" "rev base"]
    by (cases "rev base") auto
  then show ?thesis by (simp add: rsplit_def)
qed

lemma split_from_0: "split_from c 0 acc xs = [acc @ xs]"
  by (cases xs) auto

lemma rsplit_2_last_dots:
  assumes "c \<notin> set ext" and "c \<notin> set sfx"
  shows "rsplit c 2 (base @ c # ext @ c # sfx) = [base, ext, sfx]"
proof -
  have "split_from c (Suc (Suc 0)) [] (rev sfx @ c # (rev ext @ c # rev base))
        = rev sfx # split_from c (Suc 0) [] (rev ext @ c # rev base)"
    using assms(2) split_from_first_sep [of c "rev sfx" "Suc 0" "[]"] by simp
  also have "split_from c (Suc 0) [] (rev ext @ c # rev base)
        = rev ext # split_from c 0 [] (rev base)"
    using assms(1) split_from_first_sep [of c "rev ext" 0 "[]"] by simp
  finally show ?thesis
    by (simp add: rsplit_def split_from_0 numeral_2_eq_2)
qed

lemma rsplit_2_one_dot:
  assumes "c \<notin> set base" and "c \<notin> set sfx"
  shows "rsplit c 2 (base @ c # sfx) = [base, sfx]"
proof -
  have "split_from c (Suc (Suc 0)) [] (rev sfx @ c # rev base)
        = rev sfx # split_from c (Suc 0) [] (rev base)"
    using assms(2) split_from_first_sep [of c "rev sfx" "Suc 0" "[]"] by simp
  then show ?thesis
    using assms(1) by (simp add: rsplit_def split_from_no_sep numeral_2_eq_2)
qed

lemma writer_key_plain:
  assumes "CHR ''.'' \<notin> set ext" and "ext \<noteq> ''gz''" and "ext \<noteq> ''bz2''"
  shows "writer_key (base @ ''.'' @ ext) = Inr ext"
  using assms by (simp add: writer_key_def rsplit_1_last_dot getitem_def)

lemma writer_key_no_dot:
  assumes "CHR ''.'' \<notin> set output"
  shows "writer_key output = Inl IndexError"
  using assms by (simp add: writer_key_def rsplit_def split_from_no_sep getitem_def)

lemma writer_key_compressed:
  assumes "CHR ''.'' \<notin> set ext" and "sfx = ''gz'' \<or> sfx = ''bz2''"
  shows "writer_key (base @ ''.'' @ ext @ ''.'' @ sfx) = Inr ext"
proof -
  have c: "CHR ''.'' \<notin> set sfx" using assms(2) by auto
  have "rsplit CHR ''.'' (Suc 0) ((base @ CHR ''.'' # ext) @ CHR ''.'' # sfx)
        = [base @ CHR ''.'' # ext, sfx]"
    using c by (rule rsplit_1_last_dot)
  moreover have "rsplit CHR ''.'' 2 (base @ CHR ''.'' # ext @ CHR ''.'' # sfx)
        = [base, ext, sfx]"
    using assms(1) c by (rule rsplit_2_last_dots)
  ultimately show ?thesis
    using assms(2) by (auto simp: writer_key_def getitem_def)
qed

text \<open>
  C7. In the call-graph-only path the format key is the extension of the output file
  name, or the extension inside a trailing \<^verbatim>\<open>.gz\<close> / \<^verbatim>\<open>.bz2\<close>. When the key computed
  for an output file name is a supported format, the run writes exactly one file, the
  output file, with the writer the table holds for that key, prints nothing and raises
  nothing; when the key is not a supported format, the run prints the diagnostic, raises
  \<^verbatim>\<open>SystemExit(1)\<close> and has written no file. (A name without any dot has no key: the
  run ends with \<^verbatim>\<open>IndexError\<close>, and no file is written either.)
\<close>

theorem androcg_format_by_extension:
  "(CHR ''.'' \<notin> set ext \<and> ext \<noteq> ''gz'' \<and> ext \<noteq> ''bz2''
      \<longrightarrow> writer_key (base @ ''.'' @ ext) = Inr ext)
   \<and> (CHR ''.'' \<notin> set ext \<and> (sfx = ''gz'' \<or> sfx = ''bz2'')
      \<longrightarrow> writer_key (base @ ''.'' @ ext @ ''.'' @ sfx) = Inr ext)
   \<and> (writer_key output = Inr key \<and> key \<in> set androcg_write_methods
      \<longrightarrow> raised (androcg_main False output) = None
        \<and> written (androcg_main False output) = [(key, output)]
        \<and> \<not> plotted (androcg_main False output)
        \<and> printed (androcg_main False output) = [])
   \<and> (writer_key output = Inr key \<and> key \<notin> set androcg_write_methods
      \<longrightarrow> raised (androcg_main False output) = Some (SystemExit 1)
        \<and> written (androcg_main False output) = []
        \<and> \<not> plotted (androcg_main False output)
        \<and> printed (androcg_main False output)
            = [''Could not find a method to export files to '' @ key @ ''!''])
   \<and> (CHR ''.'' \<notin> set output
      \<longrightarrow> raised (androcg_main False output) = Some IndexError
        \<and> written (androcg_main False output) = [])"
  using writer_key_plain [of ext base] writer_key_compressed [of ext sfx base]
    writer_key_no_dot [of "output"]
  by (auto simp: androcg_main_def)

theorem androcg_format_by_extension_witness:
  "writer_key ''cg.gml'' = Inr ''gml''
   \<and> raised (androcg_main False ''cg.gml'') = None
   \<and> written (androcg_main False ''cg.gml'') = [(''gml'', ''cg.gml'')]
   \<and> writer_key ''out/cg.graphml.bz2'' = Inr ''graphml''
   \<and> raised (androcg_main False ''out/cg.graphml.bz2'') = None
   \<and> written (androcg_main False ''out/cg.graphml.bz2'') = [(''graphml'', ''out/cg.graphml.bz2'')]
   \<and> writer_key ''cg.svg.gz'' = Inr ''svg''
   \<and> raised (androcg_main False ''cg.svg.gz'') = Some (SystemExit 1)
   \<and> written (androcg_main False ''cg.svg.gz'') = []
   \<and> printed (androcg_main False ''cg.svg.gz'')
       = [''Could not find a method to export files to svg!'']
   \<and> raised (androcg_main False ''callgraph'') = Some IndexError
   \<and> written (androcg_main False ''callgraph'') = []"
proof -
  note t1 = androcg_format_by_extension [of "''gml''" "''cg''" "''gz''"
      "''cg.gml''" "''gml''"]
  note t2 = androcg_format_by_extension [of "''graphml''" "''out/cg''" "''bz2''"
      "''out/cg.graphml.bz2''" "''graphml''"]
  note t3 = androcg_format_by_extension [of "''svg''" "''cg''" "''gz''"
      "''cg.svg.gz''" "''svg''"]
  note t4 = androcg_format_by_extension [of "''gml''" "''cg''" "''gz''"
      "''callgraph''" "''gml''"]
  have k1: "writer_key ''cg.gml'' = Inr ''gml''" using t1 by simp
  have k2: "writer_key ''out/cg.graphml.bz2'' = Inr ''graphml''" using t2 by simp
  have k3: "writer_key ''cg.svg.gz'' = Inr ''svg''" using t3 by simp
  have r1: "raised (androcg_main False ''cg.gml'') = None
      \<and> written (androcg_main False ''cg.gml'') = [(''gml'', ''cg.gml'')]"
    using t1 k1 by (simp add: androcg_write_methods_def)
  have r2: "raised (androcg_main False ''out/cg.graphml.bz2'') = None
      \<and> written (androcg_main False ''out/cg.graphml.bz2'')
          = [(''graphml'', ''out/cg.graphml.bz2'')]"
    using t2 k2 by (simp add: androcg_write_methods_def)
  have r3: "raised (androcg_main False ''cg.svg.gz'') = Some (SystemExit 1)
      \<and> written (androcg_main False ''cg.svg.gz'') = []
      \<and> printed (androcg_main False ''cg.svg.gz'')
          = [''Could not find a method to export files to svg!'']"
    using t3 k3 by (simp add: androcg_write_methods_def)
  have r4: "raised (androcg_main False ''callgraph'') = Some IndexError
      \<and> written (androcg_main False ''callgraph'') = []"
    using t4 by simp
  show ?thesis using k1 k2 k3 r1 r2 r3 r4 by blast
qed

section \<open>The call-graph file of the export\<close>

lemma os_path_join_callgraph:
  "\<exists>pre. os_path_join output ''callgraph.gml'' = pre @ ''callgraph'' @ ''.'' @ ''gml''"
proof (cases "output = [] \<or> last output = CHR ''/''")
  case True
  then have "os_path_join output ''callgraph.gml'' = output @ ''callgraph'' @ ''.'' @ ''gml''"
    by (simp add: os_path_join_def)
  then show ?thesis by blast
next
  case False
  then have "os_path_join output ''callgraph.gml'' = (output @ ''/'') @ ''callgraph'' @ ''.'' @ ''gml''"
    by (simp add: os_path_join_def)
  then show ?thesis by blast
qed

lemma writer_key_callgraph: "writer_key (os_path_join output ''callgraph.gml'') = Inr ''gml''"
proof -
  obtain pre where "os_path_join output ''callgraph.gml'' = pre @ ''callgraph'' @ ''.'' @ ''gml''"
    using os_path_join_callgraph by blast
  then show ?thesis
    using writer_key_plain [of "''gml''" "pre @ ''callgraph''"] by simp
qed

text \<open>
  C10. The call-graph file of the export is always \<^verbatim>\<open>callgraph.gml\<close> inside the
  output directory, its format key is always \<^verbatim>\<open>gml\<close>, so the GML writer is the one
  chosen and the file is written, whatever the other parameters are; and the outcome
  of the export does not depend on \<^verbatim>\<open>form\<close> (nor on \<^verbatim>\<open>jar\<close> or the decompiler tag,
  which this model leaves out).
\<close>

theorem callgraph_always_gml:
  "writer_key (os_path_join output ''callgraph.gml'') = Inr ''gml''
   \<and> cg_file (export_apps_to_format re_search a output methods_filter jar decompiler_type form)
       = Some (''gml'', os_path_join output ''callgraph.gml'')
   \<and> export_apps_to_format re_search a output methods_filter jar decompiler_type form
       = export_apps_to_format re_search a output methods_filter jar' decompiler_type' form'"
  using writer_key_callgraph [of "output"]
  by (simp add: export_apps_to_format_def Let_def export_write_methods_def split: sum.splits)

theorem callgraph_always_gml_witness:
  "writer_key (os_path_join ''out'' ''callgraph.gml'') = Inr ''gml''
   \<and> cg_file (export_apps_to_format (\<lambda>p t. True) app_A_calls_X ''out'' None False None (Some ''png''))
       = Some (''gml'', ''out/callgraph.gml'')
   \<and> export_apps_to_format (\<lambda>p t. True) app_A_calls_X ''out'' None False None (Some ''png'')
       = export_apps_to_format (\<lambda>p t. True) app_A_calls_X ''out'' None True (Some ''ded'') None"
  using callgraph_always_gml [of "''out''" "\<lambda>p t. True" app_A_calls_X None False None "Some ''png''"
      True "Some ''ded''" None]
  by (auto simp: os_path_join_def)

section \<open>One local method calling one external target\<close>

lemma terminator_0_1:
  "terminator [0] [Suc 0] [a, x] =
     ''],'' @ [nl] @ '' '' @ json_string ''cg_edges'' @ '': [[0],[1]],'' @ [nl]
       @ json_string ''method_names'' @ '': ['' @ json_string a @ '', '' @ json_string x @ '']}''"
  by (simp add: terminator_def str_list_def digit_char_def)

lemma relabel_two_nodes:
  assumes "u \<noteq> v"
  shows "convert_node_labels_to_integers ([u, v], [(u, v)]) = ([0, 1], [(0, 1)])"
    and "convert_node_labels_to_integers ([v, u], [(u, v)]) = ([0, 1], [(1, 0)])"
  using assms
  by (auto simp: convert_node_labels_to_integers_def relabel_with_def nodes_of_def edges_of_def
      add_node_def add_edge_def Let_def)

lemma single_method_dump:
  assumes "passes fx A" "0 < n_instructions A"
    "length (get_node_attributes (cfg_nodes (cfg A))) = length (cfg_nodes (cfg A))"
  shows "dump_cfgs fx [A] (opened\<lparr>first_iteration := True\<rparr>) =
     Inr (opened\<lparr>methods := [(msig A, 0)], method_names := [msig A], first_iteration := False,
        fd := fd opened @ json_dumps_data (map fst (cfg_edges (cfg A))) (map snd (cfg_edges (cfg A)))
                (get_node_attributes (cfg_nodes (cfg A)))\<rparr>)"
  using assms by (cases fx) (simp_all add: passes_def opened_def Let_def)

lemma one_local_one_external:
  assumes "u \<noteq> v"
    and "call_graph a = (ns, [(u, v)])"
    and "(ns = [u, v] \<and> cg_nodes_by_label a = [msig A, x] \<and> cg_nodes_by_external a = [False, True])
       \<or> (ns = [v, u] \<and> cg_nodes_by_label a = [x, msig A] \<and> cg_nodes_by_external a = [True, False])"
    and "dex_objects a = [[A]]"
    and "passes fx A" and "0 < n_instructions A"
    and "length (get_node_attributes (cfg_nodes (cfg A))) = length (cfg_nodes (cfg A))"
  shows "\<exists>s. write_corpus fx a = Inr s
     \<and> method_names s = [msig A, x] \<and> cg_edges_s s = [0] \<and> cg_edges_t s = [1]
     \<and> fd s = ''{'' @ json_string ''acfg_list'' @ '': [''
        @ json_dumps_data (map fst (cfg_edges (cfg A))) (map snd (cfg_edges (cfg A)))
            (get_node_attributes (cfg_nodes (cfg A)))
        @ ''],'' @ [nl] @ '' '' @ json_string ''cg_edges'' @ '': [[0],[1]],'' @ [nl]
        @ json_string ''method_names'' @ '': ['' @ json_string (msig A) @ '', '' @ json_string x @ '']}''"
proof -
  note d = single_method_dump [OF assms(5,6,7)]
  from assms(3) show ?thesis
  proof
    assume h: "ns = [u, v] \<and> cg_nodes_by_label a = [msig A, x] \<and> cg_nodes_by_external a = [False, True]"
    show ?thesis
      using h assms(1,2,4)
      by (simp add: d write_corpus_def dex_iteration_def relabel_two_nodes Let_def getitem_def
          list_index_def relabel_nodes_def relabel_with_def nodes_of_def edges_of_def add_node_def
          add_edge_def terminator_0_1 upt_rec [of 0] upt_rec [of 1] upt_rec [of 2]
          del: dump_cfgs.simps)
        (simp add: opened_def)
  next
    assume h: "ns = [v, u] \<and> cg_nodes_by_label a = [x, msig A] \<and> cg_nodes_by_external a = [True, False]"
    show ?thesis
      using h assms(1,2,4)
      by (simp add: d write_corpus_def dex_iteration_def relabel_two_nodes Let_def getitem_def
          list_index_def relabel_nodes_def relabel_with_def nodes_of_def edges_of_def add_node_def
          add_edge_def terminator_0_1 upt_rec [of 0] upt_rec [of 1] upt_rec [of 2]
          del: dump_cfgs.simps)
        (simp add: opened_def)
  qed
qed

lemma export_completed:
  "write_corpus (methods_filter_expr re_search methods_filter) a = Inr s \<Longrightarrow>
   status (export_apps_to_format re_search a output methods_filter jar decompiler_type form) = None
   \<and> data_json (export_apps_to_format re_search a output methods_filter jar decompiler_type form)
       = Some (fd s)"
  using writer_key_callgraph [of "output"]
  by (simp add: export_apps_to_format_def Let_def export_write_methods_def)

text \<open>
  The second scenario when the application has exactly one DEX object, holding one
  exported method \<open>A\<close>, and the call graph has the two nodes \<open>A\<close> (local) and \<open>X\<close>
  (external) and the single edge from \<open>A\<close> to \<open>X\<close>, in either node order: the export
  completes, \<^verbatim>\<open>method_names\<close> is \<open>[A, X]\<close>, the edge lists are \<open>[0]\<close> and \<open>[1]\<close>, and
  the document reads \<^verbatim>\<open>"cg_edges": [[0],[1]]\<close> and \<^verbatim>\<open>"method_names": ["A", "X"]\<close>.
\<close>

theorem scenario_export:
  assumes "u \<noteq> v"
    and "call_graph a = (ns, [(u, v)])"
    and "(ns = [u, v] \<and> cg_nodes_by_label a = [msig A, x] \<and> cg_nodes_by_external a = [False, True])
       \<or> (ns = [v, u] \<and> cg_nodes_by_label a = [x, msig A] \<and> cg_nodes_by_external a = [True, False])"
    and "dex_objects a = [[A]]"
    and "passes (methods_filter_expr re_search methods_filter) A" and "0 < n_instructions A"
    and "length (get_node_attributes (cfg_nodes (cfg A))) = length (cfg_nodes (cfg A))"
  shows "\<exists>s. write_corpus (methods_filter_expr re_search methods_filter) a = Inr s
     \<and> method_names s = [msig A, x] \<and> cg_edges_s s = [0] \<and> cg_edges_t s = [1]
     \<and> status (export_apps_to_format re_search a output methods_filter jar decompiler_type form) = None
     \<and> data_json (export_apps_to_format re_search a output methods_filter jar decompiler_type form)
       = Some (''{'' @ json_string ''acfg_list'' @ '': [''
        @ json_dumps_data (map fst (cfg_edges (cfg A))) (map snd (cfg_edges (cfg A)))
            (get_node_attributes (cfg_nodes (cfg A)))
        @ ''],'' @ [nl] @ '' '' @ json_string ''cg_edges'' @ '': [[0],[1]],'' @ [nl]
        @ json_string ''method_names'' @ '': ['' @ json_string (msig A) @ '', '' @ json_string x @ '']}'')"
proof -
  obtain s where s: "write_corpus (methods_filter_expr re_search methods_filter) a = Inr s"
    "method_names s = [msig A, x]" "cg_edges_s s = [0]" "cg_edges_t s = [1]"
    "fd s = ''{'' @ json_string ''acfg_list'' @ '': [''
        @ json_dumps_data (map fst (cfg_edges (cfg A))) (map snd (cfg_edges (cfg A)))
            (get_node_attributes (cfg_nodes (cfg A)))
        @ ''],'' @ [nl] @ '' '' @ json_string ''cg_edges'' @ '': [[0],[1]],'' @ [nl]
        @ json_string ''method_names'' @ '': ['' @ json_string (msig A) @ '', '' @ json_string x @ '']}''"
    using one_local_one_external [OF assms] by blast
  show ?thesis
    using s export_completed [OF s(1)] by simp
qed

theorem scenario_export_witness:
  "data_json (export_apps_to_format (\<lambda>p t. True) app_A_calls_X ''out'' None False None None)
     = Some (''{'' @ [dq] @ ''acfg_list'' @ [dq] @ '': [{'' @ [dq] @ ''edges'' @ [dq]
         @ '': [[], []], '' @ [dq] @ ''features'' @ [dq] @ '': {'' @ [dq] @ ''0'' @ [dq]
         @ '': [1]}}],'' @ [nl] @ '' '' @ [dq] @ ''cg_edges'' @ [dq] @ '': [[0],[1]],'' @ [nl]
         @ [dq] @ ''method_names'' @ [dq] @ '': ['' @ [dq] @ ''A'' @ [dq] @ '', '' @ [dq]
         @ ''X'' @ [dq] @ '']}'')"
proof -
  have m: "msig method_A = ''A''" by (simp add: msig_def method_A_def)
  have "\<exists>s. write_corpus (methods_filter_expr (\<lambda>p t. True) None) app_A_calls_X = Inr s
     \<and> method_names s = [msig method_A, ''X''] \<and> cg_edges_s s = [0] \<and> cg_edges_t s = [1]
     \<and> status (export_apps_to_format (\<lambda>p t. True) app_A_calls_X ''out'' None False None None) = None
     \<and> data_json (export_apps_to_format (\<lambda>p t. True) app_A_calls_X ''out'' None False None None)
       = Some (''{'' @ json_string ''acfg_list'' @ '': [''
        @ json_dumps_data (map fst (cfg_edges (cfg method_A))) (map snd (cfg_edges (cfg method_A)))
            (get_node_attributes (cfg_nodes (cfg method_A)))
        @ ''],'' @ [nl] @ '' '' @ json_string ''cg_edges'' @ '': [[0],[1]],'' @ [nl]
        @ json_string ''method_names'' @ '': ['' @ json_string (msig method_A) @ '', '' @ json_string ''X'' @ '']}'')"
    by (rule scenario_export [where u = "0::nat" and v = 1 and ns = "[0, 1]"])
      (simp_all add: app_A_calls_X_def msig_def passes_def methods_filter_expr_def method_A_def)
  then show ?thesis
    by (auto simp add: msig_def method_A_def json_dumps_data_def json_string_def json_escape_def
        str_list_def str_int_def digit_char_def dq_def)
qed

text \<open>
  C3 fails when the application has a second DEX object. The one method \<open>A\<close> calls the
  external \<open>X\<close>. With an empty DEX object after the one that holds \<open>A\<close>, the run
  completes and the second pass of the loop writes a second terminator after the
  document, with \<^verbatim>\<open>method_names\<close> \<open>[A, X, X]\<close> and the edge lists \<open>[0]\<close> and \<open>[2]\<close>.
  With the empty DEX object first, the first pass walks the call graph before \<open>A\<close> is
  registered, the lookup of \<open>A\<close> raises \<^verbatim>\<open>ValueError\<close> and the file holds the opening
  fragment only.
\<close>

theorem one_method_second_dex_diverges:
  "dex_objects app_two_dex = [[method_A], []]
   \<and> status (export_apps_to_format (\<lambda>p t. True) app_two_dex ''out'' None False None None) = None
   \<and> data_json (export_apps_to_format (\<lambda>p t. True) app_two_dex ''out'' None False None None)
       = Some (fd opened @ entry method_A @ terminator [0] [1] [''A'', ''X'']
                 @ terminator [0] [2] [''A'', ''X'', ''X''])
   \<and> dex_objects app_empty_dex_first = [[], [method_A]]
   \<and> status (export_apps_to_format (\<lambda>p t. True) app_empty_dex_first ''out'' None False None None)
       = Some ValueError
   \<and> data_json (export_apps_to_format (\<lambda>p t. True) app_empty_dex_first ''out'' None False None None)
       = Some (fd opened)"
  by code_simp

section \<open>The loop over the methods\<close>

lemma dump_cfgs_skip:
  "\<not> (passes fx m \<and> 0 < n_instructions m) \<Longrightarrow> dump_cfgs fx (m # ms) s = dump_cfgs fx ms s"
  by (auto simp: passes_def split: option.splits)

lemma dump_cfgs_take:
  "passes fx m \<Longrightarrow> 0 < n_instructions m \<Longrightarrow> consistent m \<Longrightarrow>
   dump_cfgs fx (m # ms) s =
     dump_cfgs fx ms (s\<lparr>methods := dict_set (methods s) (msig m) (length (methods s)),
        method_names := method_names s @ [msig m],
        first_iteration := False,
        fd := fd s @ (if first_iteration s then entry m else [CHR '','', nl] @ entry m)\<rparr>)"
  by (cases s) (auto simp: passes_def consistent_def entry_def Let_def split: option.splits)

lemma dump_cfgs_assert:
  "passes fx m \<Longrightarrow> 0 < n_instructions m \<Longrightarrow> \<not> consistent m \<Longrightarrow>
   dump_cfgs fx (m # ms) s = Inl (AssertionError, fd s)"
  by (auto simp: passes_def consistent_def Let_def split: option.splits)

lemma dump_cfgs_completes:
  "list_all consistent (exported fx ms) \<Longrightarrow>
   \<exists>s'. dump_cfgs fx ms s = Inr s'
     \<and> method_names s' = method_names s @ map msig (exported fx ms)
     \<and> methods s' = register (map msig (exported fx ms)) (methods s)
     \<and> first_iteration s' = (first_iteration s \<and> exported fx ms = [])
     \<and> fd s' = fd s @ entries (first_iteration s) (map entry (exported fx ms))"
proof (induction ms arbitrary: s)
  case Nil
  then show ?case by (simp add: exported_def register_def)
next
  case (Cons m ms)
  show ?case
  proof (cases "passes fx m \<and> 0 < n_instructions m")
    case False
    then have "exported fx (m # ms) = exported fx ms" by (auto simp: exported_def)
    then show ?thesis
      using Cons dump_cfgs_skip [OF False] by simp
  next
    case True
    then have e: "exported fx (m # ms) = m # exported fx ms" by (simp add: exported_def)
    with Cons.prems have c: "consistent m" and r: "list_all consistent (exported fx ms)" by simp_all
    define s1 where "s1 = s\<lparr>methods := dict_set (methods s) (msig m) (length (methods s)),
        method_names := method_names s @ [msig m],
        first_iteration := False,
        fd := fd s @ (if first_iteration s then entry m else [CHR '','', nl] @ entry m)\<rparr>"
    obtain s' where s': "dump_cfgs fx ms s1 = Inr s'"
      "method_names s' = method_names s1 @ map msig (exported fx ms)"
      "methods s' = register (map msig (exported fx ms)) (methods s1)"
      "first_iteration s' = (first_iteration s1 \<and> exported fx ms = [])"
      "fd s' = fd s1 @ entries (first_iteration s1) (map entry (exported fx ms))"
      using Cons.IH [OF r, of s1] by blast
    have "dump_cfgs fx (m # ms) s = Inr s'"
      using dump_cfgs_take [of fx m ms s] True c s'(1) by (simp add: s1_def)
    then show ?thesis
      using s'(2-5) by (simp add: e s1_def register_def)
  qed
qed

lemma dump_cfgs_aborts:
  "\<not> list_all consistent (exported fx ms) \<Longrightarrow>
   dump_cfgs fx ms s =
     Inl (AssertionError,
          fd s @ entries (first_iteration s) (map entry (takeWhile consistent (exported fx ms))))"
proof (induction ms arbitrary: s)
  case Nil
  then show ?case by (simp add: exported_def)
next
  case (Cons m ms)
  show ?case
  proof (cases "passes fx m \<and> 0 < n_instructions m")
    case False
    then have "exported fx (m # ms) = exported fx ms" by (auto simp: exported_def)
    then show ?thesis
      using Cons dump_cfgs_skip [OF False] by simp
  next
    case True
    then have e: "exported fx (m # ms) = m # exported fx ms" by (simp add: exported_def)
    show ?thesis
    proof (cases "consistent m")
      case False
      then show ?thesis using True e by (simp del: dump_cfgs.simps add: dump_cfgs_assert)
    next
      case c: True
      with Cons.prems e have r: "\<not> list_all consistent (exported fx ms)" by simp
      show ?thesis
        using Cons.IH [OF r] True c
        by (simp del: dump_cfgs.simps add: dump_cfgs_take e)
    qed
  qed
qed

lemma dump_cfgs_Inr_consistent:
  "dump_cfgs fx ms s = Inr s' \<Longrightarrow> list_all consistent (exported fx ms)"
  using dump_cfgs_aborts [of fx ms s] by auto

lemma dex_iteration_consistent:
  "dex_iteration fx labels exts Gs ms = Inr Gs' \<Longrightarrow> list_all consistent (exported fx ms)"
  by (auto simp: dex_iteration_def dest: dump_cfgs_Inr_consistent split: sum.splits)

lemma dex_loop_consistent:
  "dex_loop fx labels exts ds Gs = Inr Gs' \<Longrightarrow> ms \<in> set ds \<Longrightarrow>
   list_all consistent (exported fx ms)"
proof (induction ds arbitrary: Gs)
  case Nil
  then show ?case by simp
next
  case (Cons d ds)
  then show ?case
    by (auto split: sum.splits dest: dex_iteration_consistent)
qed

lemma write_corpus_consistent:
  "write_corpus fx a = Inr s \<Longrightarrow> ms \<in> set (dex_objects a) \<Longrightarrow>
   list_all consistent (exported fx ms)"
  by (auto simp: write_corpus_def split: list.splits sum.splits
      dest: dex_iteration_consistent dex_loop_consistent)

lemma write_corpus_first_dex_aborts:
  assumes "dex_objects a = ms # rest" and "\<not> list_all consistent (exported fx ms)"
  shows "write_corpus fx a =
     Inl (AssertionError,
          fd opened @ entries True (map entry (takeWhile consistent (exported fx ms))))"
  using assms dump_cfgs_aborts [OF assms(2), of "opened\<lparr>first_iteration := True\<rparr>"]
  by (simp add: write_corpus_def dex_iteration_def)

lemma export_aborted:
  "write_corpus (methods_filter_expr re_search methods_filter) a = Inl (e, f) \<Longrightarrow>
   status (export_apps_to_format re_search a output methods_filter jar decompiler_type form) = Some e
   \<and> data_json (export_apps_to_format re_search a output methods_filter jar decompiler_type form)
       = Some f"
  using writer_key_callgraph [of "output"]
  by (simp add: export_apps_to_format_def Let_def export_write_methods_def)

text \<open>
  C5. The feature map of every exported method has one entry per node of its graph:
  in a run that completes this holds for every exported method of every DEX object; the
  check is made when the method is extracted, and the first exported method that fails
  it ends the run with \<^verbatim>\<open>AssertionError\<close>, after the entries of the methods before
  it and with no entry for it or for any later method.
\<close>

theorem feature_count_checked:
  "(write_corpus fx a = Inr s \<and> ms \<in> set (dex_objects a) \<and> m \<in> set (exported fx ms)
      \<longrightarrow> length (get_node_attributes (cfg_nodes (cfg m))) = length (cfg_nodes (cfg m)))
   \<and> (\<not> list_all consistent (exported fx ms)
      \<longrightarrow> dump_cfgs fx ms s0 =
            Inl (AssertionError,
              fd s0 @ entries (first_iteration s0)
                        (map entry (takeWhile consistent (exported fx ms)))))
   \<and> (dex_objects a = ms # rest
        \<and> \<not> list_all consistent (exported (methods_filter_expr re_search methods_filter) ms)
      \<longrightarrow> status (export_apps_to_format re_search a out methods_filter jar decompiler_type form)
            = Some AssertionError)"
proof (intro conjI impI)
  assume h: "write_corpus fx a = Inr s \<and> ms \<in> set (dex_objects a) \<and> m \<in> set (exported fx ms)"
  then have "list_all consistent (exported fx ms)"
    using write_corpus_consistent by blast
  with h show "length (get_node_attributes (cfg_nodes (cfg m))) = length (cfg_nodes (cfg m))"
    by (auto simp: list_all_iff consistent_def)
next
  assume "\<not> list_all consistent (exported fx ms)"
  then show "dump_cfgs fx ms s0 =
            Inl (AssertionError,
              fd s0 @ entries (first_iteration s0)
                        (map entry (takeWhile consistent (exported fx ms))))"
    by (rule dump_cfgs_aborts)
next
  assume "dex_objects a = ms # rest
        \<and> \<not> list_all consistent (exported (methods_filter_expr re_search methods_filter) ms)"
  then show "status (export_apps_to_format re_search a out methods_filter jar decompiler_type form)
            = Some AssertionError"
    using write_corpus_first_dex_aborts export_aborted by blast
qed

lemma app_A_calls_X_completes:
  "\<exists>s. write_corpus None app_A_calls_X = Inr s"
proof -
  have "\<exists>s. write_corpus None app_A_calls_X = Inr s
     \<and> method_names s = [msig method_A, ''X''] \<and> cg_edges_s s = [0] \<and> cg_edges_t s = [1]
     \<and> fd s = ''{'' @ json_string ''acfg_list'' @ '': [''
        @ json_dumps_data (map fst (cfg_edges (cfg method_A))) (map snd (cfg_edges (cfg method_A)))
            (get_node_attributes (cfg_nodes (cfg method_A)))
        @ ''],'' @ [nl] @ '' '' @ json_string ''cg_edges'' @ '': [[0],[1]],'' @ [nl]
        @ json_string ''method_names'' @ '': ['' @ json_string (msig method_A) @ '', '' @ json_string ''X'' @ '']}''"
    by (rule one_local_one_external [where u = "0::nat" and v = 1 and ns = "[0, 1]"])
      (simp_all add: app_A_calls_X_def msig_def passes_def method_A_def)
  then show ?thesis by blast
qed

theorem feature_count_checked_witness:
  "length (get_node_attributes (cfg_nodes (cfg method_A))) = length (cfg_nodes (cfg method_A))
   \<and> dump_cfgs None [method_A, method_bad] opened = Inl (AssertionError, fd opened @ entry method_A)
   \<and> status (export_apps_to_format (\<lambda>p t. True) app_bad ''out'' None False None None)
       = Some AssertionError"
proof -
  obtain s where s: "write_corpus None app_A_calls_X = Inr s"
    using app_A_calls_X_completes by blast
  have e: "exported None [method_A, method_bad] = [method_A, method_bad]"
    by (simp add: exported_def passes_def method_A_def method_bad_def)
  have c: "consistent method_A" "\<not> consistent method_bad"
    by (simp_all add: consistent_def method_A_def method_bad_def)
  show ?thesis
    using feature_count_checked [where fx = None and a = app_A_calls_X and s = s
        and ms = "[method_A]" and m = method_A]
      feature_count_checked [where fx = None and a = app_bad and ms = "[method_A, method_bad]"
        and ?s0.0 = opened and rest = "[]" and re_search = "\<lambda>p t. True" and methods_filter = None
        and out = "''out''" and jar = False and decompiler_type = None and form = None]
      s e c
    by (simp add: app_A_calls_X_def exported_def passes_def method_A_def opened_def
        methods_filter_expr_def app_bad_def)
qed

section \<open>The relabelling walk\<close>

lemma index_of_less: "x \<in> set xs \<Longrightarrow> index_of x xs < length xs"
  by (induction xs) auto

lemma nth_index_of: "x \<in> set xs \<Longrightarrow> xs ! index_of x xs = x"
  by (induction xs) auto

lemma index_of_nth_distinct: "distinct xs \<Longrightarrow> i < length xs \<Longrightarrow> index_of (xs ! i) xs = i"
proof (induction xs arbitrary: i)
  case Nil
  then show ?case by simp
next
  case (Cons x xs)
  then show ?case by (cases i) auto
qed

lemma index_of_inj: "x \<in> set xs \<Longrightarrow> index_of x xs = index_of y xs \<Longrightarrow> x = y"
  by (induction xs) (auto split: if_splits)

lemma map_index_of_distinct: "distinct xs \<Longrightarrow> map (\<lambda>x. index_of x xs) xs = [0..<length xs]"
  by (rule nth_equalityI) (simp_all add: index_of_nth_distinct)

lemma walk_external:
  assumes "i < length exts" "i < length labels" "exts ! i"
  shows "relabel_walk labels exts (i # is) s =
     relabel_walk labels exts is
       (s\<lparr>rename_nodes := (rename_nodes s)(i \<mapsto> counter s), counter := counter s + 1,
          method_names := method_names s @ [labels ! i]\<rparr>)"
  using assms by (simp add: getitem_def)

lemma walk_internal:
  assumes "i < length exts" "i < length labels" "\<not> exts ! i" "labels ! i \<in> set (method_names s)"
  shows "relabel_walk labels exts (i # is) s =
     relabel_walk labels exts is
       (s\<lparr>rename_nodes := (rename_nodes s)(i \<mapsto> index_of (labels ! i) (method_names s))\<rparr>)"
  using assms by (simp add: getitem_def list_index_def)

lemma walk_Inr_head:
  assumes "relabel_walk labels exts (i # is) s = Inr s'"
  shows "i < length exts \<and> i < length labels \<and> (\<not> exts ! i \<longrightarrow> labels ! i \<in> set (method_names s))"
  using assms by (auto simp: getitem_def list_index_def split: if_splits)

lemma walk_inv_external:
  assumes "walk_inv labels s"
  shows "walk_inv labels (s\<lparr>rename_nodes := (rename_nodes s)(i \<mapsto> counter s), counter := counter s + 1,
          method_names := method_names s @ [labels ! i]\<rparr>)"
  using assms by (auto simp: walk_inv_def nth_append intro: less_SucI)

lemma walk_inv_internal:
  assumes "walk_inv labels s" "labels ! i \<in> set (method_names s)"
  shows "walk_inv labels (s\<lparr>rename_nodes := (rename_nodes s)(i \<mapsto> index_of (labels ! i) (method_names s))\<rparr>)"
  using assms by (auto simp: walk_inv_def index_of_less nth_index_of)

lemma relabel_walk_result:
  "relabel_walk labels exts is s = Inr s' \<Longrightarrow> walk_inv labels s \<Longrightarrow>
   walk_inv labels s'
   \<and> dom (rename_nodes s') = dom (rename_nodes s) \<union> set is
   \<and> method_names s' = method_names s @ map (\<lambda>i. labels ! i) (filter (\<lambda>i. exts ! i) is)
   \<and> fd s' = fd s \<and> methods s' = methods s
   \<and> num_local_functions s' = num_local_functions s
   \<and> (\<forall>i \<in> set is. i < length exts \<and> i < length labels)"
proof (induction "is" arbitrary: s)
  case Nil
  then show ?case by simp
next
  case (Cons i "is")
  note h = walk_Inr_head [OF Cons.prems(1)]
  show ?case
  proof (cases "exts ! i")
    case True
    let ?s1 = "s\<lparr>rename_nodes := (rename_nodes s)(i \<mapsto> counter s), counter := counter s + 1,
          method_names := method_names s @ [labels ! i]\<rparr>"
    have "relabel_walk labels exts is ?s1 = Inr s'"
      using Cons.prems(1) h True walk_external [of i exts labels "is" s] by simp
    from Cons.IH [OF this walk_inv_external [OF Cons.prems(2)]] show ?thesis
      using h True by auto
  next
    case False
    let ?s1 = "s\<lparr>rename_nodes := (rename_nodes s)(i \<mapsto> index_of (labels ! i) (method_names s))\<rparr>"
    have "relabel_walk labels exts is ?s1 = Inr s'"
      using Cons.prems(1) h False walk_internal [of i exts labels s "is"] by simp
    from Cons.IH [OF this walk_inv_internal [OF Cons.prems(2)]] show ?thesis
      using h False by auto
  qed
qed

lemma relabel_walk_frame:
  "relabel_walk labels exts is s = Inr s' \<Longrightarrow> i \<notin> set is \<Longrightarrow>
   rename_nodes s' i = rename_nodes s i"
proof (induction "is" arbitrary: s)
  case Nil
  then show ?case by simp
next
  case (Cons j "is")
  note h = walk_Inr_head [OF Cons.prems(1)]
  show ?case
  proof (cases "exts ! j")
    case True
    then show ?thesis
      using Cons h walk_external [of j exts labels "is" s] by auto
  next
    case False
    then show ?thesis
      using Cons h walk_internal [of j exts labels s "is"] by auto
  qed
qed

lemma relabel_walk_counter:
  "relabel_walk labels exts is s = Inr s' \<Longrightarrow>
   counter s' = counter s + length (filter (\<lambda>i. exts ! i) is)"
proof (induction "is" arbitrary: s)
  case Nil
  then show ?case by simp
next
  case (Cons j "is")
  note h = walk_Inr_head [OF Cons.prems(1)]
  show ?case
  proof (cases "exts ! j")
    case True
    then show ?thesis
      using Cons h walk_external [of j exts labels "is" s] by auto
  next
    case False
    then show ?thesis
      using Cons h walk_internal [of j exts labels s "is"] by auto
  qed
qed

text \<open>Externals receive consecutive ids in the order of the walk.\<close>

lemma relabel_walk_external_ids:
  "relabel_walk labels exts is s = Inr s' \<Longrightarrow> distinct is \<Longrightarrow>
   j < length (filter (\<lambda>i. exts ! i) is) \<Longrightarrow>
   rename_nodes s' (filter (\<lambda>i. exts ! i) is ! j) = Some (counter s + j)"
proof (induction "is" arbitrary: s j)
  case Nil
  then show ?case by simp
next
  case (Cons i "is")
  note h = walk_Inr_head [OF Cons.prems(1)]
  show ?case
  proof (cases "exts ! i")
    case True
    let ?s1 = "s\<lparr>rename_nodes := (rename_nodes s)(i \<mapsto> counter s), counter := counter s + 1,
          method_names := method_names s @ [labels ! i]\<rparr>"
    have w: "relabel_walk labels exts is ?s1 = Inr s'"
      using Cons.prems(1) h True walk_external [of i exts labels "is" s] by simp
    show ?thesis
    proof (cases j)
      case 0
      have "rename_nodes s' i = rename_nodes ?s1 i"
        using relabel_walk_frame [OF w] Cons.prems(2) by simp
      then show ?thesis using True 0 by simp
    next
      case (Suc j')
      then show ?thesis
        using Cons.IH [OF w, of j'] Cons.prems(2,3) True by simp
    qed
  next
    case False
    let ?s1 = "s\<lparr>rename_nodes := (rename_nodes s)(i \<mapsto> index_of (labels ! i) (method_names s))\<rparr>"
    have w: "relabel_walk labels exts is ?s1 = Inr s'"
      using Cons.prems(1) h False walk_internal [of i exts labels s "is"] by simp
    show ?thesis
      using Cons.IH [OF w, of j] Cons.prems(2,3) False by simp
  qed
qed

text \<open>The walk succeeds when every index is in range and every internal label is registered.\<close>

lemma relabel_walk_succeeds:
  "(\<forall>i \<in> set is. i < length exts \<and> i < length labels
       \<and> (\<not> exts ! i \<longrightarrow> labels ! i \<in> set (method_names s))) \<Longrightarrow>
   \<exists>s'. relabel_walk labels exts is s = Inr s'"
proof (induction "is" arbitrary: s)
  case Nil
  then show ?case by simp
next
  case (Cons i "is")
  show ?case
  proof (cases "exts ! i")
    case True
    then show ?thesis
      using Cons.prems walk_external [of i exts labels "is" s]
        Cons.IH [of "s\<lparr>rename_nodes := (rename_nodes s)(i \<mapsto> counter s), counter := counter s + 1,
          method_names := method_names s @ [labels ! i]\<rparr>"]
      by auto
  next
    case False
    then show ?thesis
      using Cons.prems walk_internal [of i exts labels s "is"]
        Cons.IH [of "s\<lparr>rename_nodes := (rename_nodes s)(i \<mapsto> index_of (labels ! i) (method_names s))\<rparr>"]
      by auto
  qed
qed

section \<open>Relabelling a graph\<close>

lemma fold_add_node_snd: "snd (fold add_node ns G) = snd G"
  by (induction ns arbitrary: G) (auto simp: add_node_def)

lemma fold_add_node_set: "set (fst (fold add_node ns G)) = set (fst G) \<union> set ns"
  by (induction ns arbitrary: G) (auto simp: add_node_def)

lemma fold_add_node_fresh:
  "distinct ns \<Longrightarrow> set ns \<inter> set (fst G) = {} \<Longrightarrow> fold add_node ns G = (fst G @ ns, snd G)"
proof (induction ns arbitrary: G)
  case Nil
  then show ?case by simp
next
  case (Cons n ns)
  have "add_node n G = (fst G @ [n], snd G)" using Cons.prems by (simp add: add_node_def)
  moreover have "fold add_node ns (fst G @ [n], snd G) = (fst (fst G @ [n], snd G) @ ns, snd G)"
    using Cons.IH [of "(fst G @ [n], snd G)"] Cons.prems by auto
  ultimately show ?case by simp
qed

lemma add_edge_known:
  "fst e \<in> set (fst G) \<Longrightarrow> snd e \<in> set (fst G) \<Longrightarrow>
   add_edge e G = (fst G, if e \<in> set (snd G) then snd G else snd G @ [e])"
  by (cases G) (auto simp: add_edge_def add_node_def Let_def)

lemma fold_add_edge_known:
  "\<forall>e \<in> set es. fst e \<in> set (fst G) \<and> snd e \<in> set (fst G) \<Longrightarrow>
   fst (fold add_edge es G) = fst G \<and> set (snd (fold add_edge es G)) = set (snd G) \<union> set es"
proof (induction es arbitrary: G)
  case Nil
  then show ?case by simp
next
  case (Cons e es)
  let ?G1 = "(fst G, if e \<in> set (snd G) then snd G else snd G @ [e])"
  have a: "add_edge e G = ?G1" using Cons.prems by (simp add: add_edge_known)
  have "\<forall>e \<in> set es. fst e \<in> set (fst ?G1) \<and> snd e \<in> set (fst ?G1)" using Cons.prems by simp
  from Cons.IH [OF this] show ?case using a by auto
qed

lemma fold_add_edge_fresh:
  "\<forall>e \<in> set es. fst e \<in> set (fst G) \<and> snd e \<in> set (fst G) \<Longrightarrow> distinct es \<Longrightarrow>
   set es \<inter> set (snd G) = {} \<Longrightarrow> fold add_edge es G = (fst G, snd G @ es)"
proof (induction es arbitrary: G)
  case Nil
  then show ?case by simp
next
  case (Cons e es)
  let ?G1 = "(fst G, snd G @ [e])"
  have a: "add_edge e G = ?G1" using Cons.prems by (simp add: add_edge_known)
  have "fold add_edge es ?G1 = (fst ?G1, snd ?G1 @ es)"
    using Cons.prems by (intro Cons.IH) auto
  then show ?case using a by simp
qed

lemma edges_of_subset: "set (edges_of G) \<subseteq> set (snd G)"
  by (auto simp: edges_of_def)

lemma concat_only_one:
  "distinct ns \<Longrightarrow> u \<in> set ns \<Longrightarrow> concat (map (\<lambda>v. if v = u then xs else []) ns) = xs"
  by (induction ns) auto

lemma concat_none:
  "u \<notin> set ns \<Longrightarrow> concat (map (\<lambda>v. if v = u then xs else []) ns) = []"
  by (induction ns) auto

lemma mset_group_by_source:
  "distinct ns \<Longrightarrow>
   mset (concat (map (\<lambda>u. filter (\<lambda>e. fst e = u) es) ns)) = mset (filter (\<lambda>e. fst e \<in> set ns) es)"
proof (induction ns)
  case Nil
  then show ?case by simp
next
  case (Cons u ns)
  have "mset (filter (\<lambda>e. fst e = u) es) + mset (filter (\<lambda>e. fst e \<in> set ns) es)
        = mset (filter (\<lambda>e. fst e = u \<or> fst e \<in> set ns) es)"
    using Cons.prems by (induction es) auto
  then show ?case using Cons by simp
qed

lemma mset_edges_of: "wf_digraph G \<Longrightarrow> mset (edges_of G) = mset (snd G)"
proof -
  assume w: "wf_digraph G"
  then have "filter (\<lambda>e. fst e \<in> set (fst G)) (snd G) = snd G"
    by (auto simp: wf_digraph_def list_all_iff)
  then show ?thesis
    using w mset_group_by_source [of "fst G" "snd G"] by (simp add: edges_of_def wf_digraph_def)
qed

lemma distinct_edges_of: "wf_digraph G \<Longrightarrow> distinct (edges_of G)"
  using mset_edges_of [of G] mset_eq_imp_distinct_iff [of "edges_of G" "snd G"]
  by (simp add: wf_digraph_def)

lemma set_edges_of: "wf_digraph G \<Longrightarrow> set (edges_of G) = set (snd G)"
  using mset_edges_of [of G] mset_eq_setD by blast

lemma wf_edge_ends:
  "wf_digraph G \<Longrightarrow> e \<in> set (edges_of G) \<Longrightarrow> fst e \<in> set (fst G) \<and> snd e \<in> set (fst G)"
  using edges_of_subset [of G] by (auto simp: wf_digraph_def list_all_iff)

text \<open>Grouping the edge list of a graph by source again changes nothing.\<close>

lemma filter_source_edges_of:
  assumes "distinct ns" "u \<in> set ns"
  shows "filter (\<lambda>e. fst e = u) (concat (map (\<lambda>v. filter (\<lambda>e. fst e = v) es) ns))
         = filter (\<lambda>e. fst e = u) es"
proof -
  have "filter (\<lambda>e. fst e = u) (concat (map (\<lambda>v. filter (\<lambda>e. fst e = v) es) ns))
        = concat (map (\<lambda>v. filter (\<lambda>e. fst e = u) (filter (\<lambda>e. fst e = v) es)) ns)"
    by (simp add: filter_concat comp_def)
  also have "\<dots> = concat (map (\<lambda>v. if v = u then filter (\<lambda>e. fst e = u) es else []) ns)"
    by (rule arg_cong [where f = concat], rule map_cong) (auto simp: filter_empty_conv)
  also have "\<dots> = filter (\<lambda>e. fst e = u) es"
    using assms by (rule concat_only_one)
  finally show ?thesis .
qed

lemma edges_of_regroup:
  "distinct ns \<Longrightarrow> edges_of (ns, edges_of (ns, es)) = edges_of (ns, es)"
  unfolding edges_of_def fst_conv snd_conv
  by (rule arg_cong [where f = concat], rule map_cong) (simp_all add: filter_source_edges_of)

lemma relabel_with_inj:
  assumes "wf_digraph G" "inj_on f (set (fst G))"
  shows "relabel_with f G = (map f (fst G), map (\<lambda>e. (f (fst e), f (snd e))) (edges_of G))"
proof -
  have n: "fold add_node (map f (nodes_of G)) ([], []) = (map f (fst G), [])"
    using assms fold_add_node_fresh [of "map f (fst G)" "([], [])"]
    by (simp add: nodes_of_def wf_digraph_def distinct_map)
  have inj2: "inj_on (\<lambda>e. (f (fst e), f (snd e))) (set (edges_of G))"
    using assms wf_edge_ends [OF assms(1)]
    by (auto simp: inj_on_def prod_eq_iff)
  have d: "distinct (map (\<lambda>e. (f (fst e), f (snd e))) (edges_of G))"
    using distinct_edges_of [OF assms(1)] inj2 by (simp add: distinct_map)
  have k: "\<forall>e \<in> set (map (\<lambda>e. (f (fst e), f (snd e))) (edges_of G)).
             fst e \<in> set (fst (map f (fst G), [])) \<and> snd e \<in> set (fst (map f (fst G), []))"
    using wf_edge_ends [OF assms(1)] by auto
  show ?thesis
    unfolding relabel_with_def n
    using fold_add_edge_fresh [OF k d] by simp
qed

lemma edges_of_relabel_inj:
  assumes "wf_digraph G" "inj_on f (set (fst G))"
  shows "edges_of (relabel_with f G) = map (\<lambda>e. (f (fst e), f (snd e))) (edges_of G)"
proof -
  let ?ff = "\<lambda>e. (f (fst e), f (snd e))"
  have d: "distinct (fst G)" using assms(1) by (simp add: wf_digraph_def)
  have g: "\<And>u. u \<in> set (fst G) \<Longrightarrow>
      filter (\<lambda>e. fst e = f u) (map ?ff (edges_of G)) = map ?ff (filter (\<lambda>e. fst e = u) (edges_of G))"
  proof -
    fix u assume u: "u \<in> set (fst G)"
    have "filter (\<lambda>e. fst e = f u) (map ?ff (edges_of G))
          = map ?ff (filter (\<lambda>e. f (fst e) = f u) (edges_of G))"
      by (simp add: filter_map comp_def)
    also have "filter (\<lambda>e. f (fst e) = f u) (edges_of G) = filter (\<lambda>e. fst e = u) (edges_of G)"
      using assms(2) u wf_edge_ends [OF assms(1)]
      by (intro filter_cong) (auto simp: inj_on_def)
    finally show "filter (\<lambda>e. fst e = f u) (map ?ff (edges_of G))
          = map ?ff (filter (\<lambda>e. fst e = u) (edges_of G))" .
  qed
  have "edges_of (relabel_with f G)
        = concat (map (\<lambda>u. map ?ff (filter (\<lambda>e. fst e = u) (edges_of G))) (fst G))"
    unfolding relabel_with_inj [OF assms] edges_of_def [of "(map f (fst G), map ?ff (edges_of G))"]
    by (simp add: comp_def g cong: map_cong)
  also have "\<dots> = map ?ff (concat (map (\<lambda>u. filter (\<lambda>e. fst e = u) (edges_of G)) (fst G)))"
    by (simp add: map_concat comp_def)
  also have "concat (map (\<lambda>u. filter (\<lambda>e. fst e = u) (edges_of G)) (fst G))
      = edges_of (fst G, edges_of G)"
    by (simp add: edges_of_def [of "(fst G, edges_of G)"])
  also have "\<dots> = edges_of G"
    using edges_of_regroup [OF d, of "snd G"] by simp
  finally show ?thesis .
qed

lemma wf_relabel_inj:
  assumes "wf_digraph G" "inj_on f (set (fst G))"
  shows "wf_digraph (relabel_with f G)"
proof -
  have inj2: "inj_on (\<lambda>e. (f (fst e), f (snd e))) (set (edges_of G))"
    using assms wf_edge_ends [OF assms(1)]
    by (auto simp: inj_on_def prod_eq_iff)
  show ?thesis
    unfolding relabel_with_inj [OF assms]
    using assms distinct_edges_of [OF assms(1)] inj2 wf_edge_ends [OF assms(1)]
    by (auto simp: wf_digraph_def distinct_map list_all_iff)
qed

lemma relabel_with_ends:
  assumes "wf_digraph G" "e \<in> set (edges_of (relabel_with f G))"
  shows "fst e \<in> f ` set (fst G) \<and> snd e \<in> f ` set (fst G)"
proof -
  let ?es = "map (\<lambda>e. (f (fst e), f (snd e))) (edges_of G)"
  let ?G0 = "fold add_node (map f (nodes_of G)) ([], [])"
  have n: "set (fst ?G0) = f ` set (fst G)" "snd ?G0 = []"
    by (simp_all add: fold_add_node_set fold_add_node_snd nodes_of_def)
  have k: "\<forall>e \<in> set ?es. fst e \<in> set (fst ?G0) \<and> snd e \<in> set (fst ?G0)"
    using wf_edge_ends [OF assms(1)] n by auto
  have "set (snd (relabel_with f G)) = set ?es"
    using fold_add_edge_known [OF k] n by (simp add: relabel_with_def)
  then have "e \<in> set ?es" using assms(2) edges_of_subset by blast
  then show ?thesis using wf_edge_ends [OF assms(1)] by auto
qed

lemma inj_on_index_of: "inj_on (\<lambda>u. index_of u xs) (set xs)"
  by (auto simp: inj_on_def dest: index_of_inj)

lemma convert_wf:
  assumes "wf_digraph G"
  shows "fst (convert_node_labels_to_integers G) = [0..<length (fst G)]"
    and "wf_digraph (convert_node_labels_to_integers G)"
    and "edges_of (convert_node_labels_to_integers G) =
      map (\<lambda>e. (index_of (fst e) (fst G), index_of (snd e) (fst G))) (edges_of G)"
proof -
  have d: "distinct (fst G)" using assms by (simp add: wf_digraph_def)
  note i = inj_on_index_of [of "fst G"]
  show "fst (convert_node_labels_to_integers G) = [0..<length (fst G)]"
    unfolding convert_node_labels_to_integers_def nodes_of_def relabel_with_inj [OF assms i]
    using d by (simp add: map_index_of_distinct)
  show "wf_digraph (convert_node_labels_to_integers G)"
    unfolding convert_node_labels_to_integers_def nodes_of_def by (rule wf_relabel_inj [OF assms i])
  show "edges_of (convert_node_labels_to_integers G) =
      map (\<lambda>e. (index_of (fst e) (fst G), index_of (snd e) (fst G))) (edges_of G)"
    unfolding convert_node_labels_to_integers_def nodes_of_def by (rule edges_of_relabel_inj [OF assms i])
qed

lemma dex_iteration_Inr:
  assumes "dex_iteration fx labels exts Gs ms = Inr (G2, s')"
  obtains s1 s3 where
    "dump_cfgs fx ms ((snd Gs)\<lparr>first_iteration := True\<rparr>) = Inr s1"
    "relabel_walk labels exts [0..<length labels]
       (s1\<lparr>rename_nodes := Map.empty, num_local_functions := length (method_names s1),
           counter := length (method_names s1)\<rparr>) = Inr s3"
    "G2 = relabel_nodes (convert_node_labels_to_integers (fst Gs)) (rename_nodes s3)"
    "s' = s3\<lparr>cg_edges_s := map fst (edges_of G2), cg_edges_t := map snd (edges_of G2),
             fd := fd s3 @ terminator (map fst (edges_of G2)) (map snd (edges_of G2))
                             (method_names s3)\<rparr>"
  using assms by (auto simp: dex_iteration_def Let_def split: sum.splits)

lemma walk_inv_start:
  "walk_inv labels (s1\<lparr>rename_nodes := Map.empty, num_local_functions := n,
           counter := length (method_names s1)\<rparr>)"
  by (simp add: walk_inv_def)

lemma relabel_core:
  assumes w: "wf_digraph G" and len: "length labels = length (fst G)" and dl: "distinct labels"
    and walk: "relabel_walk labels exts [0..<length labels] s2 = Inr s3"
    and inv: "walk_inv labels s2" and emp: "rename_nodes s2 = Map.empty"
  defines "G2 \<equiv> relabel_nodes (convert_node_labels_to_integers G) (rename_nodes s3)"
  shows "inj_on (node_id G s3) (set (fst G))"
    and "G2 = (map (node_id G s3) (fst G),
               map (\<lambda>e. (node_id G s3 (fst e), node_id G s3 (snd e))) (edges_of G))"
    and "edges_of G2 = map (\<lambda>e. (node_id G s3 (fst e), node_id G s3 (snd e))) (edges_of G)"
    and "wf_digraph G2"
    and "\<forall>u \<in> set (fst G). node_id G s3 u < length (method_names s3)
           \<and> method_names s3 ! node_id G s3 u = labels ! index_of u (fst G)"
proof -
  let ?n = "length labels"
  let ?g = "\<lambda>i. case rename_nodes s3 i of Some k \<Rightarrow> k | None \<Rightarrow> i"
  let ?G1 = "convert_node_labels_to_integers G"
  from relabel_walk_result [OF walk inv]
  have inv3: "walk_inv labels s3" and dom3: "dom (rename_nodes s3) = {0..<?n}"
    using emp by auto
  have some: "\<And>i. i < ?n \<Longrightarrow> rename_nodes s3 i = Some (?g i)"
    using dom3 by (auto simp: dom_def split: option.splits)
  have name: "\<And>i. i < ?n \<Longrightarrow> ?g i < length (method_names s3) \<and> method_names s3 ! ?g i = labels ! i"
    using some inv3 unfolding walk_inv_def by blast
  have ginj: "inj_on ?g (set [0..<?n])"
  proof (rule inj_onI)
    fix i j assume "i \<in> set [0..<?n]" "j \<in> set [0..<?n]" and e: "?g i = ?g j"
    then have ij: "i < ?n" "j < ?n" by simp_all
    have "labels ! i = labels ! j" using name [OF ij(1)] name [OF ij(2)] e by simp
    then show "i = j" using dl ij by (simp add: nth_eq_iff_index_eq)
  qed
  note c = convert_wf [OF w]
  have f1: "fst ?G1 = [0..<?n]" using c(1) len by simp
  have ginj1: "inj_on ?g (set (fst ?G1))" using ginj f1 by simp
  have idx: "\<And>u. u \<in> set (fst G) \<Longrightarrow> index_of u (fst G) < ?n"
    using len by (simp add: index_of_less)
  have phi: "\<And>u. node_id G s3 u = ?g (index_of u (fst G))"
    by (simp add: node_id_def nodes_of_def split: option.splits)
  show inj: "inj_on (node_id G s3) (set (fst G))"
  proof (rule inj_onI)
    fix u v assume uv: "u \<in> set (fst G)" "v \<in> set (fst G)" and e: "node_id G s3 u = node_id G s3 v"
    have "index_of u (fst G) = index_of v (fst G)"
      using ginj idx [OF uv(1)] idx [OF uv(2)] e unfolding phi inj_on_def by simp
    then show "u = v" using uv(1) by (rule index_of_inj [rotated])
  qed
  have nodes: "map ?g (fst ?G1) = map (node_id G s3) (fst G)"
  proof -
    have "map (node_id G s3) (fst G) = map ?g (map (\<lambda>u. index_of u (fst G)) (fst G))"
      by (simp add: phi comp_def)
    also have "map (\<lambda>u. index_of u (fst G)) (fst G) = [0..<length (fst G)]"
      using w by (simp add: map_index_of_distinct wf_digraph_def)
    finally show ?thesis using f1 len by simp
  qed
  have edges: "map (\<lambda>e. (?g (fst e), ?g (snd e))) (edges_of ?G1)
      = map (\<lambda>e. (node_id G s3 (fst e), node_id G s3 (snd e))) (edges_of G)"
    unfolding c(3) by (simp add: phi comp_def split: option.splits)
  show g2: "G2 = (map (node_id G s3) (fst G),
               map (\<lambda>e. (node_id G s3 (fst e), node_id G s3 (snd e))) (edges_of G))"
    unfolding G2_def relabel_nodes_def relabel_with_inj [OF c(2) ginj1] nodes edges ..
  show "edges_of G2 = map (\<lambda>e. (node_id G s3 (fst e), node_id G s3 (snd e))) (edges_of G)"
    unfolding G2_def relabel_nodes_def edges_of_relabel_inj [OF c(2) ginj1] edges ..
  show "wf_digraph G2"
    unfolding G2_def relabel_nodes_def by (rule wf_relabel_inj [OF c(2) ginj1])
  show "\<forall>u \<in> set (fst G). node_id G s3 u < length (method_names s3)
           \<and> method_names s3 ! node_id G s3 u = labels ! index_of u (fst G)"
    using name idx unfolding phi by blast
qed

lemma dex_iteration_succeeds:
  assumes c: "list_all consistent (exported fx ms)" and l: "length exts = length labels"
    and r: "\<forall>i<length labels. \<not> exts ! i
              \<longrightarrow> labels ! i \<in> set (method_names s) \<union> msig ` set (exported fx ms)"
  shows "\<exists>G2 s'. dex_iteration fx labels exts (G, s) ms = Inr (G2, s')"
proof -
  obtain s1 where s1: "dump_cfgs fx ms (s\<lparr>first_iteration := True\<rparr>) = Inr s1"
    "method_names s1 = method_names (s\<lparr>first_iteration := True\<rparr>) @ map msig (exported fx ms)"
    using dump_cfgs_completes [OF c, of "s\<lparr>first_iteration := True\<rparr>"] by blast
  let ?s2 = "s1\<lparr>rename_nodes := Map.empty, num_local_functions := length (method_names s1),
           counter := length (method_names s1)\<rparr>"
  have "\<forall>i \<in> set [0..<length labels]. i < length exts \<and> i < length labels
       \<and> (\<not> exts ! i \<longrightarrow> labels ! i \<in> set (method_names ?s2))"
    using l r s1(2) by auto
  then obtain s3 where "relabel_walk labels exts [0..<length labels] ?s2 = Inr s3"
    using relabel_walk_succeeds by blast
  then show ?thesis
    using s1(1) by (simp add: dex_iteration_def Let_def)
qed

lemma dex_iteration_isomorphism:
  assumes w: "wf_digraph G" and len: "length labels = length (nodes_of G)" and dl: "distinct labels"
    and it: "dex_iteration fx labels exts (G, s) ms = Inr (G2, s')"
  shows "inj_on (node_id G s') (set (nodes_of G))"
    and "nodes_of G2 = map (node_id G s') (nodes_of G)"
    and "edges_of G2 = map (\<lambda>e. (node_id G s' (fst e), node_id G s' (snd e))) (edges_of G)"
    and "wf_digraph G2"
    and "cg_edges_s s' = map fst (edges_of G2)" and "cg_edges_t s' = map snd (edges_of G2)"
    and "\<forall>u \<in> set (nodes_of G). node_id G s' u < length (method_names s')
           \<and> method_names s' ! node_id G s' u = labels ! index_of u (nodes_of G)"
proof -
  from it obtain s1 s3 where
    walk: "relabel_walk labels exts [0..<length labels]
       (s1\<lparr>rename_nodes := Map.empty, num_local_functions := length (method_names s1),
           counter := length (method_names s1)\<rparr>) = Inr s3"
    and g2: "G2 = relabel_nodes (convert_node_labels_to_integers G) (rename_nodes s3)"
    and s': "s' = s3\<lparr>cg_edges_s := map fst (edges_of G2), cg_edges_t := map snd (edges_of G2),
             fd := fd s3 @ terminator (map fst (edges_of G2)) (map snd (edges_of G2))
                             (method_names s3)\<rparr>"
    by (rule dex_iteration_Inr) simp
  have nid: "node_id G s' = node_id G s3"
    by (rule ext) (simp add: node_id_def s')
  have len': "length labels = length (fst G)" using len by (simp add: nodes_of_def)
  note core = relabel_core [OF w len' dl walk walk_inv_start, folded g2]
  show "inj_on (node_id G s') (set (nodes_of G))"
    using core(1) by (simp add: nid nodes_of_def)
  show "nodes_of G2 = map (node_id G s') (nodes_of G)"
    using core(2) by (simp add: nid nodes_of_def)
  show "edges_of G2 = map (\<lambda>e. (node_id G s' (fst e), node_id G s' (snd e))) (edges_of G)"
    using core(3) by (simp add: nid)
  show "wf_digraph G2" using core(4) by simp
  show "cg_edges_s s' = map fst (edges_of G2)" "cg_edges_t s' = map snd (edges_of G2)"
    by (simp_all add: s')
  show "\<forall>u \<in> set (nodes_of G). node_id G s' u < length (method_names s')
           \<and> method_names s' ! node_id G s' u = labels ! index_of u (nodes_of G)"
    using core(5) unfolding nid by (simp add: nodes_of_def s')
qed

text \<open>
  C4. One pass of the relabelling, for a well-formed call graph whose label table is
  parallel to its nodes and holds pairwise distinct labels. When the pass completes, the
  graph it leaves is the image of the input under \<open>node_id\<close>, the composition of the two
  renamings: \<open>node_id\<close> is one-to-one on the nodes, the nodes and the edges are the
  images of the input's nodes and edges in the same order (so the edge multiset is the
  image multiset, and no edge and no node is lost), the edge lists written are those of
  this graph, and the id of a node indexes its label in \<^verbatim>\<open>method_names\<close>. The pass
  completes whenever the exported methods pass the feature check, the tables have equal
  lengths and the label of every node that is not external is a registered name.
\<close>

theorem relabeling_is_isomorphism:
  assumes "wf_digraph G" and "length labels = length (nodes_of G)" and "distinct labels"
  shows "(dex_iteration fx labels exts (G, s) ms = Inr (G2, s') \<longrightarrow>
            inj_on (node_id G s') (set (nodes_of G))
          \<and> nodes_of G2 = map (node_id G s') (nodes_of G)
          \<and> edges_of G2 = map (\<lambda>e. (node_id G s' (fst e), node_id G s' (snd e))) (edges_of G)
          \<and> mset (edges_of G2)
              = image_mset (\<lambda>e. (node_id G s' (fst e), node_id G s' (snd e))) (mset (edges_of G))
          \<and> length (edges_of G2) = length (edges_of G)
          \<and> length (nodes_of G2) = length (nodes_of G)
          \<and> wf_digraph G2
          \<and> cg_edges_s s' = map fst (edges_of G2) \<and> cg_edges_t s' = map snd (edges_of G2)
          \<and> (\<forall>u \<in> set (nodes_of G). node_id G s' u < length (method_names s')
                \<and> method_names s' ! node_id G s' u = labels ! index_of u (nodes_of G)))
       \<and> (list_all consistent (exported fx ms) \<and> length exts = length labels
            \<and> (\<forall>i<length labels. \<not> exts ! i
                  \<longrightarrow> labels ! i \<in> set (method_names s) \<union> msig ` set (exported fx ms))
          \<longrightarrow> (\<exists>G2 s'. dex_iteration fx labels exts (G, s) ms = Inr (G2, s')))"
proof (intro conjI impI)
  assume it: "dex_iteration fx labels exts (G, s) ms = Inr (G2, s')"
  note iso = dex_iteration_isomorphism [OF assms it]
  show "inj_on (node_id G s') (set (nodes_of G))" by (rule iso(1))
  show "nodes_of G2 = map (node_id G s') (nodes_of G)" by (rule iso(2))
  show e: "edges_of G2 = map (\<lambda>e. (node_id G s' (fst e), node_id G s' (snd e))) (edges_of G)"
    by (rule iso(3))
  show "mset (edges_of G2)
      = image_mset (\<lambda>e. (node_id G s' (fst e), node_id G s' (snd e))) (mset (edges_of G))"
    by (simp add: e)
  show "length (edges_of G2) = length (edges_of G)" by (simp add: e)
  show "length (nodes_of G2) = length (nodes_of G)" by (simp add: iso(2))
  show "wf_digraph G2" by (rule iso(4))
  show "cg_edges_s s' = map fst (edges_of G2)" by (rule iso(5))
  show "cg_edges_t s' = map snd (edges_of G2)" by (rule iso(6))
  show "\<forall>u \<in> set (nodes_of G). node_id G s' u < length (method_names s')
                \<and> method_names s' ! node_id G s' u = labels ! index_of u (nodes_of G)"
    by (rule iso(7))
next
  assume "list_all consistent (exported fx ms) \<and> length exts = length labels
            \<and> (\<forall>i<length labels. \<not> exts ! i
                  \<longrightarrow> labels ! i \<in> set (method_names s) \<union> msig ` set (exported fx ms))"
  then show "\<exists>G2 s'. dex_iteration fx labels exts (G, s) ms = Inr (G2, s')"
    using dex_iteration_succeeds by blast
qed

theorem relabeling_is_isomorphism_witness:
  "wf_digraph graph_3 \<and> distinct [''X'', ''A'', ''B'']
   \<and> (\<exists>G2 s'. dex_iteration None [''X'', ''A'', ''B''] [True, False, False] (graph_3, opened)
                  [method_B, method_A] = Inr (G2, s')
        \<and> edges_of G2 = map (\<lambda>e. (node_id graph_3 s' (fst e), node_id graph_3 s' (snd e)))
                           (edges_of graph_3)
        \<and> length (edges_of G2) = 4 \<and> length (nodes_of G2) = 3)"
proof -
  have w: "wf_digraph graph_3" by (simp add: wf_digraph_def graph_3_def)
  have l: "length [''X'', ''A'', ''B''] = length (nodes_of graph_3)"
    by (simp add: graph_3_def nodes_of_def)
  have d: "distinct [''X'', ''A'', ''B'']" by simp
  have e: "exported None [method_B, method_A] = [method_B, method_A]"
    by (simp add: exported_def passes_def method_A_def method_B_def)
  have c: "list_all consistent (exported None [method_B, method_A])"
    unfolding e by (simp add: consistent_def method_A_def method_B_def)
  have r: "\<forall>i<length [''X'', ''A'', ''B'']. \<not> [True, False, False] ! i
      \<longrightarrow> [''X'', ''A'', ''B''] ! i \<in> set (method_names opened) \<union> msig ` set (exported None [method_B, method_A])"
    unfolding e by (simp add: msig_def method_A_def method_B_def less_Suc_eq numeral_3_eq_3)
  note t = relabeling_is_isomorphism [OF w l d, where fx = None and exts = "[True, False, False]"
      and s = opened and ms = "[method_B, method_A]"]
  have "\<exists>G2 s'. dex_iteration None [''X'', ''A'', ''B''] [True, False, False] (graph_3, opened)
                  [method_B, method_A] = Inr (G2, s')"
    using t [THEN conjunct2] c r by simp
  then obtain G2 s' where
    it: "dex_iteration None [''X'', ''A'', ''B''] [True, False, False] (graph_3, opened)
                  [method_B, method_A] = Inr (G2, s')"
    by blast
  from t [of G2 s'] it have
    "edges_of G2 = map (\<lambda>e. (node_id graph_3 s' (fst e), node_id graph_3 s' (snd e)))
                           (edges_of graph_3)"
    "length (edges_of G2) = length (edges_of graph_3)"
    "length (nodes_of G2) = length (nodes_of graph_3)"
    by blast+
  moreover have "length (edges_of graph_3) = 4" "length (nodes_of graph_3) = 3"
    by (simp_all add: graph_3_def edges_of_def nodes_of_def)
  ultimately show ?thesis using w d it by auto
qed

section \<open>The name table and the edge ids\<close>

lemma single_dex_run:
  assumes "dex_objects a = [ms]" "write_corpus fx a = Inr s"
  shows "\<exists>G2. dex_iteration fx (cg_nodes_by_label a) (cg_nodes_by_external a)
                 (call_graph a, opened) ms = Inr (G2, s)"
  using assms by (auto simp: write_corpus_def split: sum.splits)

lemma dex_iteration_names:
  assumes it: "dex_iteration fx labels exts (G, s) ms = Inr (G2, s')"
  shows "method_names s' = method_names s @ map msig (exported fx ms)
            @ map (\<lambda>i. labels ! i) (filter (\<lambda>i. exts ! i) [0..<length labels])"
    and "num_local_functions s' = length (method_names s) + length (exported fx ms)"
    and "methods s' = register (map msig (exported fx ms)) (methods s)"
proof -
  from it obtain s1 s3 where
    dump: "dump_cfgs fx ms (s\<lparr>first_iteration := True\<rparr>) = Inr s1"
    and walk: "relabel_walk labels exts [0..<length labels]
       (s1\<lparr>rename_nodes := Map.empty, num_local_functions := length (method_names s1),
           counter := length (method_names s1)\<rparr>) = Inr s3"
    and s': "s' = s3\<lparr>cg_edges_s := map fst (edges_of G2), cg_edges_t := map snd (edges_of G2),
             fd := fd s3 @ terminator (map fst (edges_of G2)) (map snd (edges_of G2))
                             (method_names s3)\<rparr>"
    by (rule dex_iteration_Inr) simp
  have c: "list_all consistent (exported fx ms)" using dump by (rule dump_cfgs_Inr_consistent)
  from dump_cfgs_completes [OF c, of "s\<lparr>first_iteration := True\<rparr>"] dump
  have n1: "method_names s1 = method_names s @ map msig (exported fx ms)"
    and m1: "methods s1 = register (map msig (exported fx ms)) (methods s)" by auto
  note r = relabel_walk_result [OF walk walk_inv_start]
  show "method_names s' = method_names s @ map msig (exported fx ms)
            @ map (\<lambda>i. labels ! i) (filter (\<lambda>i. exts ! i) [0..<length labels])"
    using r n1 by (simp add: s')
  show "num_local_functions s' = length (method_names s) + length (exported fx ms)"
    using r n1 by (simp add: s')
  show "methods s' = register (map msig (exported fx ms)) (methods s)"
    using r m1 by (simp add: s')
qed

lemma dex_iteration_edge_ids:
  assumes w: "wf_digraph G" and len: "length labels = length (nodes_of G)"
    and it: "dex_iteration fx labels exts (G, s) ms = Inr (G2, s')"
  shows "list_all (\<lambda>i. i < length (method_names s')) (cg_edges_s s' @ cg_edges_t s')"
proof -
  from it obtain s1 s3 where
    walk: "relabel_walk labels exts [0..<length labels]
       (s1\<lparr>rename_nodes := Map.empty, num_local_functions := length (method_names s1),
           counter := length (method_names s1)\<rparr>) = Inr s3"
    and g2: "G2 = relabel_nodes (convert_node_labels_to_integers G) (rename_nodes s3)"
    and s': "s' = s3\<lparr>cg_edges_s := map fst (edges_of G2), cg_edges_t := map snd (edges_of G2),
             fd := fd s3 @ terminator (map fst (edges_of G2)) (map snd (edges_of G2))
                             (method_names s3)\<rparr>"
    by (rule dex_iteration_Inr) simp
  let ?g = "\<lambda>i. case rename_nodes s3 i of Some k \<Rightarrow> k | None \<Rightarrow> i"
  from relabel_walk_result [OF walk walk_inv_start]
  have inv3: "walk_inv labels s3" and dom3: "dom (rename_nodes s3) = {0..<length labels}"
    by auto
  have below: "?g i < length (method_names s3)" if "i < length labels" for i
  proof -
    from that dom3 have "i \<in> dom (rename_nodes s3)" by simp
    then obtain k where k: "rename_nodes s3 i = Some k" by blast
    then have "k < length (method_names s3)" using inv3 unfolding walk_inv_def by blast
    then show ?thesis using k by simp
  qed
  note c = convert_wf [OF w]
  have ends: "\<And>e. e \<in> set (edges_of G2) \<Longrightarrow>
      fst e < length (method_names s3) \<and> snd e < length (method_names s3)"
  proof -
    fix e assume "e \<in> set (edges_of G2)"
    then have "fst e \<in> ?g ` set (fst (convert_node_labels_to_integers G))
        \<and> snd e \<in> ?g ` set (fst (convert_node_labels_to_integers G))"
      unfolding g2 relabel_nodes_def by (rule relabel_with_ends [OF c(2)])
    then show "fst e < length (method_names s3) \<and> snd e < length (method_names s3)"
      using below len by (auto simp: c(1) nodes_of_def)
  qed
  show ?thesis
    using ends by (auto simp: s' list_all_iff)
qed

text \<open>
  C2, amended. For an application with exactly one DEX object whose call graph is
  well formed with a label table parallel to its nodes, a run that completes ends with
  \<open>L + E\<close> names, where \<open>L\<close> is the number of exported methods and \<open>E\<close> the number of
  table entries flagged external, and every id in the two call-graph edge lists is below
  the length of \<^verbatim>\<open>method_names\<close>. (The edge lists of the \<^verbatim>\<open>acfg_list\<close> entries hold node ids
  of each method's own graph and are not bounded by that length.)
\<close>

theorem single_dex_name_table:
  assumes "dex_objects a = [ms]" and "wf_digraph (call_graph a)"
    and "length (cg_nodes_by_label a) = length (nodes_of (call_graph a))"
    and "write_corpus fx a = Inr s"
  shows "length (method_names s)
           = length (exported fx ms) + n_external (cg_nodes_by_label a) (cg_nodes_by_external a)
       \<and> num_local_functions s = length (exported fx ms)
       \<and> list_all (\<lambda>i. i < length (method_names s)) (cg_edges_s s @ cg_edges_t s)"
proof -
  obtain G2 where it: "dex_iteration fx (cg_nodes_by_label a) (cg_nodes_by_external a)
                 (call_graph a, opened) ms = Inr (G2, s)"
    using single_dex_run [OF assms(1,4)] by blast
  show ?thesis
    using dex_iteration_names [OF it] dex_iteration_edge_ids [OF assms(2,3) it]
    by (simp add: n_external_def opened_def)
qed

theorem single_dex_name_table_witness:
  "\<exists>s. write_corpus None app_A_calls_X = Inr s
     \<and> length (method_names s) = 1 + 1
     \<and> list_all (\<lambda>i. i < length (method_names s)) (cg_edges_s s @ cg_edges_t s)"
proof -
  obtain s where s: "write_corpus None app_A_calls_X = Inr s"
    using app_A_calls_X_completes by blast
  have "length (exported None [method_A]) = 1"
    by (simp add: exported_def passes_def method_A_def)
  moreover have "n_external (cg_nodes_by_label app_A_calls_X) (cg_nodes_by_external app_A_calls_X) = 1"
    by (simp add: n_external_def app_A_calls_X_def upt_rec [of 0] upt_rec [of 1] upt_rec [of 2])
  ultimately show ?thesis
    using single_dex_name_table [of app_A_calls_X "[method_A]" None s] s
    by (auto simp: app_A_calls_X_def wf_digraph_def nodes_of_def)
qed

text \<open>
  C2 as worded fails: the one method of \<open>app_C\<close> has the edge \<open>(1, 2)\<close> in its own graph
  while \<^verbatim>\<open>method_names\<close> has the single entry \<open>C\<close>.
\<close>

theorem cfg_edge_ids_counterexample:
  "(case write_corpus None app_C of
      Inl e \<Rightarrow> False
    | Inr s \<Rightarrow> method_names s = [''C''] \<and> cg_edges_s s = [] \<and> cg_edges_t s = []
         \<and> map snd (cfg_edges (cfg method_C)) = [1, 2]
         \<and> \<not> edge_ids_have_names None app_C s)"
  by code_simp

section \<open>The identifiers of one run\<close>

lemma dict_set_new: "k \<notin> fst ` set d \<Longrightarrow> dict_set d k v = d @ [(k, v)]"
  by (induction d) auto

lemma register_distinct:
  "distinct names \<Longrightarrow> set names \<inter> fst ` set d = {} \<Longrightarrow>
   register names d = d @ zip names [length d..<length d + length names]"
proof (induction names arbitrary: d)
  case Nil
  then show ?case by (simp add: register_def)
next
  case (Cons x names)
  have x: "dict_set d x (length d) = d @ [(x, length d)]"
    using Cons.prems by (simp add: dict_set_new)
  have u: "[length d..<Suc (length d + length names)]
      = length d # [Suc (length d)..<Suc (length d + length names)]"
    by (rule upt_conv_Cons) simp
  have "set names \<inter> fst ` set (d @ [(x, length d)]) = {}" "distinct names"
    using Cons.prems by auto
  then have "register names (d @ [(x, length d)])
      = (d @ [(x, length d)]) @ zip names [Suc (length d)..<Suc (length d + length names)]"
    using Cons.IH [of "d @ [(x, length d)]"] by (simp del: upt_Suc)
  then show ?case
    using x u by (simp add: register_def del: upt_Suc)
qed

text \<open>
  With one DEX object and pairwise distinct signatures the identifiers are as C1 says:
  the exported methods own the ids from \<open>0\<close> in processing order (in \<^verbatim>\<open>methods\<close> and as
  positions of \<^verbatim>\<open>method_names\<close>), the external table entries own the following ids in
  the order of the walk, and the name at each id is the owner's.
\<close>

lemma single_dex_identifier_assignment:
  assumes "dex_objects a = [ms]" and "write_corpus fx a = Inr s"
    and "distinct (map msig (exported fx ms))"
  shows "method_names s = map msig (exported fx ms)
            @ map (\<lambda>i. cg_nodes_by_label a ! i)
                (filter (\<lambda>i. cg_nodes_by_external a ! i) [0..<length (cg_nodes_by_label a)])"
    and "methods s = zip (map msig (exported fx ms)) [0..<length (exported fx ms)]"
    and "j < n_external (cg_nodes_by_label a) (cg_nodes_by_external a) \<Longrightarrow>
         rename_nodes s (filter (\<lambda>i. cg_nodes_by_external a ! i)
                           [0..<length (cg_nodes_by_label a)] ! j)
           = Some (length (exported fx ms) + j)"
proof -
  let ?labels = "cg_nodes_by_label a" and ?exts = "cg_nodes_by_external a"
  obtain G2 where it: "dex_iteration fx ?labels ?exts (call_graph a, opened) ms = Inr (G2, s)"
    using single_dex_run [OF assms(1,2)] by blast
  show "method_names s = map msig (exported fx ms)
            @ map (\<lambda>i. ?labels ! i) (filter (\<lambda>i. ?exts ! i) [0..<length ?labels])"
    using dex_iteration_names(1) [OF it] by (simp add: opened_def)
  show "methods s = zip (map msig (exported fx ms)) [0..<length (exported fx ms)]"
    using dex_iteration_names(3) [OF it] register_distinct [OF assms(3), of "[]"]
    by (simp add: opened_def)
  assume j: "j < n_external ?labels ?exts"
  from it obtain s1 s3 where
    dump: "dump_cfgs fx ms (opened\<lparr>first_iteration := True\<rparr>) = Inr s1"
    and walk: "relabel_walk ?labels ?exts [0..<length ?labels]
       (s1\<lparr>rename_nodes := Map.empty, num_local_functions := length (method_names s1),
           counter := length (method_names s1)\<rparr>) = Inr s3"
    and s': "s = s3\<lparr>cg_edges_s := map fst (edges_of G2), cg_edges_t := map snd (edges_of G2),
             fd := fd s3 @ terminator (map fst (edges_of G2)) (map snd (edges_of G2))
                             (method_names s3)\<rparr>"
    by (rule dex_iteration_Inr) simp
  have c: "list_all consistent (exported fx ms)" using dump by (rule dump_cfgs_Inr_consistent)
  from dump_cfgs_completes [OF c, of "opened\<lparr>first_iteration := True\<rparr>"] dump
  have n1: "length (method_names s1) = length (exported fx ms)" by (auto simp: opened_def)
  show "rename_nodes s (filter (\<lambda>i. ?exts ! i) [0..<length ?labels] ! j)
           = Some (length (exported fx ms) + j)"
    using relabel_walk_external_ids [OF walk _ j [unfolded n_external_def]] n1
    by (simp add: s')
qed

text \<open>
  C1 fails when the application has a second DEX object. With the methods \<open>[A]\<close> and
  \<open>[]\<close> in two DEX objects and the call graph from \<open>A\<close> to the external \<open>X\<close>, the run
  completes; the second pass of the loop counts the name of \<open>X\<close> among the local names
  (\<^verbatim>\<open>num_local_functions\<close> is 2 with one local method), gives \<open>X\<close> the new id 2 and
  appends its name again, so the table written last is \<open>[A, X, X]\<close> and the edge is
  \<open>(0, 2)\<close>.
\<close>

theorem two_dex_ids_reissued:
  "(case write_corpus None app_two_dex of
      Inl e \<Rightarrow> False
    | Inr s \<Rightarrow> method_names s = [''A'', ''X'', ''X''] \<and> methods s = [(''A'', 0)]
         \<and> num_local_functions s = 2 \<and> rename_nodes s 1 = Some 2
         \<and> cg_edges_s s = [0] \<and> cg_edges_t s = [2])"
  by code_simp

section \<open>The corpus file as a JSON text\<close>

declare str_nat.simps [simp del]

lemma jrun_append:
  "jrun q (a @ b) = (case jrun q a of None \<Rightarrow> None | Some q' \<Rightarrow> jrun q' b)"
  by (induction a arbitrary: q) (auto split: option.splits)

lemma jrun_then: "jrun q a = Some q' \<Longrightarrow> jrun q (a @ b) = jrun q' b"
  by (simp add: jrun_append)

lemma digit_char_cases:
  "digit_char d \<in> set ''0123456789''" "(digit_char d = CHR ''0'') = (d = 0)"
  by (auto simp: digit_char_def)

lemma digit_char_plain:
  "is_digit (digit_char d)" "\<not> ws (digit_char d)" "digit_char d \<noteq> CHR '']''"
  "digit_char d \<noteq> CHR ''{''" "digit_char d \<noteq> CHR ''[''" "digit_char d \<noteq> dq"
  "digit_char d \<noteq> CHR ''-''" "digit_char d \<noteq> CHR 0x5C"
  "\<not> (of_char (digit_char d) :: nat) < 32"
  by (auto simp: digit_char_def is_digit_def ws_def dq_def)

lemma jstep_first_digit:
  "num_start q \<Longrightarrow> jstep (q, st) (digit_char d) = Some (if d = 0 then Zero else IntDigits, st)"
  by (auto simp: num_start_def begin_value_def digit_char_plain digit_char_cases)

lemma jrun_str_nat:
  "num_start q \<Longrightarrow> jrun (q, st) (str_nat n) = Some (if n = 0 then Zero else IntDigits, st)"
proof (induction n rule: str_nat.induct)
  case (1 n)
  show ?case
  proof (cases "n < 10")
    case True
    then show ?thesis
      using 1(2) by (subst str_nat.simps) (simp add: jstep_first_digit)
  next
    case False
    then have "n div 10 \<noteq> 0" by simp
    then have "jrun (q, st) (str_nat (n div 10)) = Some (IntDigits, st)"
      using 1 False by simp
    then show ?thesis
      using False
      by (subst str_nat.simps) (simp add: jrun_then digit_char_plain)
  qed
qed

lemma rendersD:
  assumes "renders t"
  obtains q where "complete q" "jrun (Value, st) t = Some (q, st)"
    "jrun (ArrayStart, st) t = Some (q, st)"
  using assms unfolding renders_def by blast

lemma complete_step:
  "complete q \<Longrightarrow> c = CHR '','' \<or> c = CHR '']'' \<or> c = CHR ''}'' \<Longrightarrow>
   jstep (q, st) c = after_value st c"
  by (auto simp: complete_def is_digit_def)

lemma renders_str_int: "renders (str_int i)"
proof -
  have "\<exists>q. complete q \<and> jrun (q0, st) (str_int i) = Some (q, st)"
    if "q0 = Value \<or> q0 = ArrayStart" for q0 st
  proof (cases "i < 0")
    case True
    have "jstep (q0, st) CHR ''-'' = Some (Minus, st)"
      using that by (auto simp: ws_def begin_value_def dq_def)
    then show ?thesis
      using True jrun_str_nat [of Minus st "nat (- i)"]
      by (simp add: str_int_def num_start_def complete_def)
  next
    case False
    then show ?thesis
      using that jrun_str_nat [of q0 st "nat i"]
      by (auto simp: str_int_def num_start_def complete_def)
  qed
  moreover have "jrun (Value, st) (str_int i) = Some (q, st)
      \<longleftrightarrow> jrun (ArrayStart, st) (str_int i) = Some (q, st)" for q st
  proof (cases "i < 0")
    case True
    then show ?thesis by (simp add: str_int_def ws_def begin_value_def dq_def)
  next
    case False
    then show ?thesis
      using jrun_str_nat [of Value st "nat i"] jrun_str_nat [of ArrayStart st "nat i"]
      by (simp add: str_int_def num_start_def)
  qed
  ultimately show ?thesis unfolding renders_def by blast
qed

lemma renders_str_nat: "renders (str_nat n)"
  unfolding renders_def
  using jrun_str_nat [of Value _ n] jrun_str_nat [of ArrayStart _ n]
  by (auto simp: num_start_def complete_def)

lemma jrun_join_items:
  assumes r: "\<And>x. renders (item x)" and q0: "q0 = Value \<or> q0 = ArrayStart"
  shows "xs \<noteq> [] \<Longrightarrow>
     \<exists>q. complete q \<and> jrun (q0, InArray # st) (join '', '' (map item xs)) = Some (q, InArray # st)"
  using q0
proof (induction xs arbitrary: q0)
  case Nil
  then show ?case by simp
next
  case (Cons x xs)
  obtain q where q: "complete q" "jrun (Value, InArray # st) (item x) = Some (q, InArray # st)"
    "jrun (ArrayStart, InArray # st) (item x) = Some (q, InArray # st)"
    using r [of x] by (rule rendersD)
  have first: "jrun (q0, InArray # st) (item x) = Some (q, InArray # st)"
    using Cons.prems(2) q by auto
  show ?case
  proof (cases xs)
    case Nil
    then show ?thesis using first q(1) by auto
  next
    case (Cons y ys)
    obtain q' where q': "complete q'"
      "jrun (Value, InArray # st) (join '', '' (map item xs)) = Some (q', InArray # st)"
      using Cons.IH [of Value] Cons by auto
    have "jrun (q0, InArray # st) (join '', '' (map item (x # xs)))
        = jrun (q, InArray # st) ('', '' @ join '', '' (map item xs))"
      using first Cons by (simp add: jrun_then)
    also have "\<dots> = jrun (Value, InArray # st) (join '', '' (map item xs))"
      using complete_step [OF q(1), of "CHR '',''" "InArray # st"]
      by (simp add: after_value_def ws_def)
    finally show ?thesis using q' by auto
  qed
qed

lemma renders_str_list:
  assumes "\<And>x. renders (item x)"
  shows "renders (str_list item xs)"
proof -
  have "jrun (q0, st) (str_list item xs) = Some (AfterValue, st)"
    if q0: "q0 = Value \<or> q0 = ArrayStart" for q0 st
  proof -
    have open_: "jstep (q0, st) CHR ''['' = Some (ArrayStart, InArray # st)"
      using q0 by (auto simp: ws_def begin_value_def)
    show ?thesis
    proof (cases "xs = []")
      case True
      then show ?thesis
        using open_ by (simp add: str_list_def close_array_def ws_def)
    next
      case False
      obtain q where q: "complete q"
        "jrun (ArrayStart, InArray # st) (join '', '' (map item xs)) = Some (q, InArray # st)"
        using jrun_join_items [where item = item and xs = xs and st = st and ?q0.0 = ArrayStart]
          assms False by auto
      have "jrun (q0, st) (str_list item xs)
          = jrun (ArrayStart, InArray # st) (join '', '' (map item xs) @ '']'')"
        using open_ by (simp add: str_list_def)
      also have "\<dots> = jrun (q, InArray # st) '']''"
        using q(2) by (simp add: jrun_then)
      also have "\<dots> = Some (AfterValue, st)"
        using complete_step [OF q(1), of "CHR '']''" "InArray # st"]
        by (simp add: after_value_def ws_def close_array_def)
      finally show ?thesis .
    qed
  qed
  then show ?thesis unfolding renders_def by (auto simp: complete_def)
qed

lemma hex_char_is_hex: "is_hex (hex_char d)"
  by (auto simp: hex_char_def digit_char_def is_hex_def)

lemma jrun_json_escape: "jrun (InString k, st) (json_escape c) = Some (InString k, st)"
proof -
  consider "c = dq" | "c = CHR 0x5C" | "c = CHR 0x0A" | "c = CHR 0x0D" | "c = CHR 0x09"
    | "c = CHR 0x08" | "c = CHR 0x0C"
    | "c \<notin> {dq, CHR 0x5C, CHR 0x0A, CHR 0x0D, CHR 0x09, CHR 0x08, CHR 0x0C}"
      "(of_char c :: nat) < 32 \<or> 126 < (of_char c :: nat)"
    | "c \<notin> {dq, CHR 0x5C, CHR 0x0A, CHR 0x0D, CHR 0x09, CHR 0x08, CHR 0x0C}"
      "\<not> ((of_char c :: nat) < 32 \<or> 126 < (of_char c :: nat))"
    by blast
  then show ?thesis
  proof cases
    case 8
    then show ?thesis
      using hex_char_is_hex [of "of_char c div 16"] hex_char_is_hex [of "of_char c mod 16"]
      by (simp add: json_escape_def dq_def is_hex_def)
  next
    case 9
    then show ?thesis by (simp add: json_escape_def)
  qed (simp_all add: json_escape_def dq_def)
qed

lemma jrun_json_body:
  "jrun (InString k, st) (concat (map json_escape s)) = Some (InString k, st)"
  by (induction s) (simp_all add: jrun_then jrun_json_escape)

lemma jrun_json_string:
  "q0 = Value \<or> q0 = ArrayStart \<Longrightarrow> jrun (q0, st) (json_string s) = Some (AfterValue, st)"
  "q0 = ObjectStart \<or> q0 = Key \<Longrightarrow> jrun (q0, st) (json_string s) = Some (Colon, st)"
proof -
  have body: "jrun (InString k, st) (concat (map json_escape s) @ [dq])
      = Some (if k then Colon else AfterValue, st)" for k
    by (simp add: jrun_then [OF jrun_json_body])
  show "q0 = Value \<or> q0 = ArrayStart \<Longrightarrow> jrun (q0, st) (json_string s) = Some (AfterValue, st)"
    using body [of False] by (auto simp: json_string_def begin_value_def ws_def dq_def)
  show "q0 = ObjectStart \<or> q0 = Key \<Longrightarrow> jrun (q0, st) (json_string s) = Some (Colon, st)"
    using body [of True] by (auto simp: json_string_def ws_def dq_def)
qed

lemma renders_json_string: "renders (json_string s)"
  unfolding renders_def using jrun_json_string(1) [of _ _ s] by (auto simp: complete_def)

lemma jrun_rendered:
  assumes "renders t" and "q0 = Value \<or> q0 = ArrayStart"
    and "c = CHR '','' \<or> c = CHR '']'' \<or> c = CHR ''}''"
  shows "jrun (q0, st) (t @ c # rest) = (case after_value st c of None \<Rightarrow> None
                                          | Some q' \<Rightarrow> jrun q' rest)"
proof -
  obtain q where q: "complete q" "jrun (Value, st) t = Some (q, st)"
    "jrun (ArrayStart, st) t = Some (q, st)"
    using assms(1) by (rule rendersD)
  have "jrun (q0, st) t = Some (q, st)" using assms(2) q by auto
  then show ?thesis
    using complete_step [OF q(1) assms(3), of st] by (simp add: jrun_then)
qed

lemma jrun_members:
  assumes q0: "q0 = ObjectStart \<or> q0 = Key"
  shows "ps \<noteq> [] \<Longrightarrow>
     jrun (q0, InObject # st) (join '', '' (map member_text ps) @ CHR ''}'' # rest)
       = jrun (AfterValue, st) rest"
  using q0
proof (induction ps arbitrary: q0)
  case Nil
  then show ?case by simp
next
  case (Cons p ps)
  have key: "jrun (q0, InObject # st) (json_string (str_int (fst p))) = Some (Colon, InObject # st)"
    using Cons.prems(2) by (rule jrun_json_string(2))
  have r: "renders (str_list str_int (snd p))"
    by (rule renders_str_list) (rule renders_str_int)
  show ?case
  proof (cases ps)
    case Nil
    have "jrun (q0, InObject # st) (join '', '' (map member_text (p # ps)) @ CHR ''}'' # rest)
        = jrun (Colon, InObject # st) ('': '' @ str_list str_int (snd p) @ CHR ''}'' # rest)"
      using Nil by (simp add: member_text_def jrun_then [OF key])
    also have "\<dots> = jrun (Value, InObject # st) (str_list str_int (snd p) @ CHR ''}'' # rest)"
      by (simp add: ws_def)
    also have "\<dots> = jrun (AfterValue, st) rest"
      using jrun_rendered [OF r, of Value "CHR ''}''" "InObject # st" rest]
      by (simp add: after_value_def ws_def close_object_def)
    finally show ?thesis .
  next
    case (Cons p' ps')
    have "jrun (q0, InObject # st) (join '', '' (map member_text (p # ps)) @ CHR ''}'' # rest)
        = jrun (Colon, InObject # st) ('': '' @ str_list str_int (snd p)
            @ CHR '','' # CHR '' '' # join '', '' (map member_text ps) @ CHR ''}'' # rest)"
      using Cons by (simp add: member_text_def jrun_then [OF key])
    also have "\<dots> = jrun (Value, InObject # st) (str_list str_int (snd p)
            @ CHR '','' # CHR '' '' # join '', '' (map member_text ps) @ CHR ''}'' # rest)"
      by (simp add: ws_def)
    also have "\<dots> = jrun (Key, InObject # st)
            (CHR '' '' # join '', '' (map member_text ps) @ CHR ''}'' # rest)"
      using jrun_rendered [OF r, of Value "CHR '',''" "InObject # st"]
      by (simp add: after_value_def ws_def)
    also have "\<dots> = jrun (Key, InObject # st)
            (join '', '' (map member_text ps) @ CHR ''}'' # rest)"
      by (simp add: ws_def)
    also have "\<dots> = jrun (AfterValue, st) rest"
      using Cons.IH [of Key] Cons by simp
    finally show ?thesis .
  qed
qed

lemma jrun_dict:
  "jrun (ObjectStart, InObject # st) (join '', '' (map member_text ps) @ CHR ''}'' # rest)
     = jrun (AfterValue, st) rest"
proof (cases "ps = []")
  case True
  then show ?thesis by (simp add: ws_def close_object_def)
next
  case False
  then show ?thesis using jrun_members [of ObjectStart ps st rest] by simp
qed

lemma json_dumps_data_members:
  "json_dumps_data es et fs =
     ''{'' @ json_string ''edges'' @ '': ['' @ str_list str_int es @ '', ''
       @ str_list str_int et @ ''], '' @ json_string ''features'' @ '': {''
       @ join '', '' (map member_text fs) @ ''}}''"
proof -
  have "(\<lambda>(n, f). json_string (str_int n) @ '': '' @ str_list str_int f) = member_text"
    by (rule ext) (simp add: member_text_def split: prod.splits)
  then show ?thesis by (simp add: json_dumps_data_def)
qed

lemma jrun_json_dumps_data:
  assumes "q0 = Value \<or> q0 = ArrayStart"
  shows "jrun (q0, st) (json_dumps_data es et fs) = Some (AfterValue, st)"
proof -
  let ?st1 = "InObject # st"
  have rl: "renders (str_list str_int xs)" for xs
    by (rule renders_str_list) (rule renders_str_int)
  have a: "jstep (q0, st) CHR ''{'' = Some (ObjectStart, ?st1)"
    using assms by (auto simp: ws_def begin_value_def)
  have k1: "jrun (ObjectStart, ?st1) (json_string ''edges'') = Some (Colon, ?st1)"
    by (rule jrun_json_string(2)) simp
  have k2: "jrun (Key, ?st1) (json_string ''features'') = Some (Colon, ?st1)"
    by (rule jrun_json_string(2)) simp
  let ?tail3 = "join '', '' (map member_text fs) @ ''}}''"
  let ?tail2 = "'' '' @ json_string ''features'' @ '': {'' @ ?tail3"
  let ?tail1 = "'' '' @ str_list str_int et @ '']'' @ '','' @ ?tail2"
  have "jrun (q0, st) (json_dumps_data es et fs)
      = jrun (ObjectStart, ?st1) (json_string ''edges'' @ '': ['' @ str_list str_int es
          @ '','' @ ?tail1)"
    using a by (simp add: json_dumps_data_members)
  also have "\<dots> = jrun (Colon, ?st1) ('': ['' @ str_list str_int es @ '','' @ ?tail1)"
    by (simp only: jrun_then [OF k1])
  also have "\<dots> = jrun (ArrayStart, InArray # ?st1) (str_list str_int es @ CHR '','' # ?tail1)"
    by (simp add: ws_def begin_value_def dq_def)
  also have "\<dots> = jrun (Value, InArray # ?st1) ?tail1"
    using jrun_rendered [OF rl, of ArrayStart "CHR '',''" "InArray # ?st1"]
    by (simp add: after_value_def ws_def)
  also have "\<dots> = jrun (Value, InArray # ?st1) (str_list str_int et @ CHR '']'' # '','' @ ?tail2)"
    by (simp add: ws_def)
  also have "\<dots> = jrun (AfterValue, ?st1) ('','' @ ?tail2)"
    using jrun_rendered [OF rl, of Value "CHR '']''" "InArray # ?st1"]
    by (simp add: after_value_def ws_def close_array_def)
  also have "\<dots> = jrun (Key, ?st1) (json_string ''features'' @ '': {'' @ ?tail3)"
    by (simp add: after_value_def ws_def)
  also have "\<dots> = jrun (Colon, ?st1) ('': {'' @ ?tail3)"
    by (simp only: jrun_then [OF k2])
  also have "\<dots> = jrun (ObjectStart, InObject # ?st1)
      (join '', '' (map member_text fs) @ CHR ''}'' # ''}'')"
    by (simp add: ws_def begin_value_def)
  also have "\<dots> = jrun (AfterValue, ?st1) ''}''"
    by (rule jrun_dict)
  also have "\<dots> = Some (AfterValue, st)"
    by (simp add: after_value_def ws_def close_object_def)
  finally show ?thesis .
qed

lemma jrun_entry:
  "q0 = Value \<or> q0 = ArrayStart \<Longrightarrow> jrun (q0, st) (entry m) = Some (AfterValue, st)"
  unfolding entry_def by (rule jrun_json_dumps_data)

lemma jrun_entries:
  "jrun (if first then ArrayStart else AfterValue, InArray # st) (entries first (map entry ms))
     = Some (if first \<and> ms = [] then ArrayStart else AfterValue, InArray # st)"
proof (induction ms arbitrary: first)
  case Nil
  then show ?case by simp
next
  case (Cons m ms)
  have "jrun (if first then ArrayStart else AfterValue, InArray # st)
          (if first then entry m else [CHR '','', nl] @ entry m) = Some (AfterValue, InArray # st)"
    using jrun_entry [of ArrayStart "InArray # st" m] jrun_entry [of Value "InArray # st" m]
    by (simp add: after_value_def ws_def nl_def)
  then show ?case
    using Cons.IH [of False] by (simp add: jrun_then)
qed

lemma jrun_opened: "jrun (Value, []) (fd opened) = Some (ArrayStart, [InArray, InObject])"
proof -
  have k: "jrun (ObjectStart, [InObject]) (json_string ''acfg_list'') = Some (Colon, [InObject])"
    by (rule jrun_json_string(2)) simp
  have "jrun (Value, []) (fd opened)
      = jrun (ObjectStart, [InObject]) (json_string ''acfg_list'' @ '': ['')"
    by (simp add: opened_def ws_def begin_value_def)
  also have "\<dots> = jrun (Colon, [InObject]) '': [''"
    by (simp only: jrun_then [OF k])
  also have "\<dots> = Some (ArrayStart, [InArray, InObject])"
    by (simp add: ws_def begin_value_def dq_def)
  finally show ?thesis .
qed

lemma jrun_terminator:
  assumes "q0 = ArrayStart \<or> q0 = AfterValue"
  shows "jrun (q0, [InArray, InObject]) (terminator es et names) = Some (AfterValue, [])"
proof -
  let ?st1 = "[InObject]"
  have rn: "renders (str_list str_nat xs)" for xs
    by (rule renders_str_list) (rule renders_str_nat)
  have rs: "renders (str_list json_string names)"
    by (rule renders_str_list) (rule renders_json_string)
  have k1: "jrun (Key, ?st1) (json_string ''cg_edges'') = Some (Colon, ?st1)"
    by (rule jrun_json_string(2)) simp
  have k2: "jrun (Key, ?st1) (json_string ''method_names'') = Some (Colon, ?st1)"
    by (rule jrun_json_string(2)) simp
  let ?tail3 = "'': '' @ str_list json_string names @ ''}''"
  let ?tail2 = "[nl] @ json_string ''method_names'' @ ?tail3"
  let ?tail1 = "str_list str_nat et @ '']'' @ '','' @ ?tail2"
  have "jrun (q0, [InArray, InObject]) (terminator es et names)
      = jrun (Key, ?st1) (json_string ''cg_edges'' @ '': ['' @ str_list str_nat es @ '','' @ ?tail1)"
    using assms by (auto simp: terminator_def after_value_def ws_def close_array_def nl_def)
  also have "\<dots> = jrun (Colon, ?st1) ('': ['' @ str_list str_nat es @ '','' @ ?tail1)"
    by (simp only: jrun_then [OF k1])
  also have "\<dots> = jrun (ArrayStart, InArray # ?st1) (str_list str_nat es @ CHR '','' # ?tail1)"
    by (simp add: ws_def begin_value_def dq_def)
  also have "\<dots> = jrun (Value, InArray # ?st1) (str_list str_nat et @ CHR '']'' # '','' @ ?tail2)"
    using jrun_rendered [OF rn, of ArrayStart "CHR '',''" "InArray # ?st1"]
    by (simp add: after_value_def ws_def)
  also have "\<dots> = jrun (AfterValue, ?st1) ('','' @ ?tail2)"
    using jrun_rendered [OF rn, of Value "CHR '']''" "InArray # ?st1"]
    by (simp add: after_value_def ws_def close_array_def)
  also have "\<dots> = jrun (Key, ?st1) (json_string ''method_names'' @ ?tail3)"
    by (simp add: after_value_def ws_def nl_def)
  also have "\<dots> = jrun (Colon, ?st1) ?tail3"
    by (simp only: jrun_then [OF k2])
  also have "\<dots> = jrun (Value, ?st1) (str_list json_string names @ CHR ''}'' # [])"
    by (simp add: ws_def)
  also have "\<dots> = Some (AfterValue, [])"
    using jrun_rendered [OF rs, of Value "CHR ''}''" ?st1 "[]"]
    by (simp add: after_value_def ws_def close_object_def)
  finally show ?thesis .
qed

text \<open>The text of one completed document: the opening, the entries, one terminator.\<close>

lemma jrun_document:
  "jrun (Value, []) (fd opened @ entries True (map entry ms) @ terminator es et names)
     = Some (AfterValue, [])"
proof -
  have "jrun (ArrayStart, [InArray, InObject]) (entries True (map entry ms))
      = Some (if ms = [] then ArrayStart else AfterValue, [InArray, InObject])"
    using jrun_entries [of True "[InObject]" ms] by simp
  then show ?thesis
    using jrun_terminator [of ArrayStart es et names] jrun_terminator [of AfterValue es et names]
    by (simp add: jrun_then [OF jrun_opened] jrun_then)
qed

lemma json_valid_document:
  "json_valid (fd opened @ entries True (map entry ms) @ terminator es et names)"
  by (simp add: json_valid_def jrun_document complete_def)

lemma jrun_None: "jrun q a = None \<Longrightarrow> jrun q (a @ b) = None"
  by (simp add: jrun_append)

text \<open>Whatever one more pass of the loop appends starts with a brace or a closing bracket.\<close>

lemma pass_text_head:
  "\<exists>c r. entries True (map entry ms) @ terminator es et names = c # r
         \<and> (c = CHR ''{'' \<or> c = CHR '']'')"
proof (cases ms)
  case Nil
  then show ?thesis by (simp add: terminator_def)
next
  case (Cons m ms')
  then show ?thesis by (simp add: entry_def json_dumps_data_def)
qed

lemma not_valid_after_document:
  assumes "t = c # r" and "c = CHR ''{'' \<or> c = CHR '']''"
  shows "\<not> json_valid ((fd opened @ entries True (map entry ms) @ terminator es et names) @ t @ u)"
proof -
  have "jrun (AfterValue, []) (t @ u) = None"
    using assms by (auto simp: after_value_def ws_def close_array_def)
  then show ?thesis
    by (simp only: json_valid_def jrun_then [OF jrun_document]) simp
qed

lemma opened_not_valid: "\<not> json_valid (fd opened)"
  by (simp add: json_valid_def jrun_opened complete_def)

section \<open>One terminator for each DEX object\<close>

lemma dex_iteration_fd:
  assumes "dex_iteration fx labels exts (G, s) ms = Inr (G2, s')"
  shows "fd s' = fd s @ entries True (map entry (exported fx ms))
                  @ terminator (cg_edges_s s') (cg_edges_t s') (method_names s')"
proof -
  from assms obtain s1 s3 where
    dump: "dump_cfgs fx ms (s\<lparr>first_iteration := True\<rparr>) = Inr s1"
    and walk: "relabel_walk labels exts [0..<length labels]
       (s1\<lparr>rename_nodes := Map.empty, num_local_functions := length (method_names s1),
           counter := length (method_names s1)\<rparr>) = Inr s3"
    and s': "s' = s3\<lparr>cg_edges_s := map fst (edges_of G2), cg_edges_t := map snd (edges_of G2),
             fd := fd s3 @ terminator (map fst (edges_of G2)) (map snd (edges_of G2))
                             (method_names s3)\<rparr>"
    by (rule dex_iteration_Inr) simp
  have c: "list_all consistent (exported fx ms)" using dump by (rule dump_cfgs_Inr_consistent)
  from dump_cfgs_completes [OF c, of "s\<lparr>first_iteration := True\<rparr>"] dump
  have f1: "fd s1 = fd s @ entries True (map entry (exported fx ms))" by auto
  from relabel_walk_result [OF walk walk_inv_start] have "fd s3 = fd s1" by simp
  then show ?thesis using f1 by (simp add: s')
qed

lemma dex_loop_fd:
  "dex_loop fx labels exts ds Gs = Inr Gs' \<Longrightarrow> \<exists>t. fd (snd Gs') = fd (snd Gs) @ t"
proof (induction ds arbitrary: Gs)
  case Nil
  then show ?case by simp
next
  case (Cons d ds)
  from Cons.prems obtain G1 s1 where
    it: "dex_iteration fx labels exts Gs d = Inr (G1, s1)"
    and rest: "dex_loop fx labels exts ds (G1, s1) = Inr Gs'"
    by (auto split: sum.splits)
  from dex_iteration_fd [of fx labels exts "fst Gs" "snd Gs" d G1 s1] it
  obtain t1 where "fd s1 = fd (snd Gs) @ t1" by auto
  moreover from Cons.IH [OF rest] obtain t2 where "fd (snd Gs') = fd s1 @ t2" by auto
  ultimately show ?case by simp
qed

lemma one_dex_valid:
  assumes "dex_objects a = [ms]" and "write_corpus fx a = Inr s"
  shows "fd s = fd opened @ entries True (map entry (exported fx ms))
                  @ terminator (cg_edges_s s) (cg_edges_t s) (method_names s)"
    and "json_valid (fd s)"
proof -
  obtain G2 where it: "dex_iteration fx (cg_nodes_by_label a) (cg_nodes_by_external a)
                 (call_graph a, opened) ms = Inr (G2, s)"
    using single_dex_run [OF assms] by blast
  show f: "fd s = fd opened @ entries True (map entry (exported fx ms))
                  @ terminator (cg_edges_s s) (cg_edges_t s) (method_names s)"
    using it by (rule dex_iteration_fd)
  show "json_valid (fd s)"
    unfolding f by (rule json_valid_document)
qed

lemma more_dex_not_valid:
  assumes "dex_objects a = d1 # d2 # ds" and "write_corpus fx a = Inr s"
  shows "\<not> json_valid (fd s)"
proof -
  let ?labels = "cg_nodes_by_label a" and ?exts = "cg_nodes_by_external a"
  from assms obtain G1 s1 Gs' where
    it1: "dex_iteration fx ?labels ?exts (call_graph a, opened) d1 = Inr (G1, s1)"
    and loop: "dex_loop fx ?labels ?exts (d2 # ds) (G1, s1) = Inr Gs'" and s: "s = snd Gs'"
    by (auto simp: write_corpus_def split: sum.splits)
  from loop obtain G2 s2 where
    it2: "dex_iteration fx ?labels ?exts (G1, s1) d2 = Inr (G2, s2)"
    and rest: "dex_loop fx ?labels ?exts ds (G2, s2) = Inr Gs'"
    by (auto split: sum.splits)
  note f1 = dex_iteration_fd [OF it1]
  note f2 = dex_iteration_fd [OF it2]
  obtain t where t: "fd s = fd s2 @ t" using dex_loop_fd [OF rest] s by auto
  obtain c r where cr: "entries True (map entry (exported fx d2))
        @ terminator (cg_edges_s s2) (cg_edges_t s2) (method_names s2) = c # r"
      "c = CHR ''{'' \<or> c = CHR '']''"
    using pass_text_head by blast
  have "fd s = (fd opened @ entries True (map entry (exported fx d1))
                  @ terminator (cg_edges_s s1) (cg_edges_t s1) (method_names s1))
               @ (c # r) @ t"
    using t f1 f2 cr(1) by simp
  then show ?thesis
    using not_valid_after_document [OF refl cr(2)] by simp
qed

lemma completed_valid_iff_one_dex:
  assumes "write_corpus fx a = Inr s"
  shows "json_valid (fd s) \<longleftrightarrow> length (dex_objects a) = 1"
proof (cases "dex_objects a")
  case Nil
  then have "s = opened" using assms by (simp add: write_corpus_def)
  then show ?thesis using Nil opened_not_valid by simp
next
  case (Cons d1 ds)
  show ?thesis
  proof (cases ds)
    case Nil
    then show ?thesis using one_dex_valid(2) [OF _ assms] Cons by simp
  next
    case (Cons d2 ds')
    then show ?thesis
      using more_dex_not_valid [OF _ assms] \<open>dex_objects a = d1 # ds\<close> by simp
  qed
qed

lemma export_status_None:
  assumes "status (export_apps_to_format re_search a out methods_filter jar decompiler_type form)
             = None"
  shows "\<exists>s. write_corpus (methods_filter_expr re_search methods_filter) a = Inr s
     \<and> data_json (export_apps_to_format re_search a out methods_filter jar decompiler_type form)
          = Some (fd s)"
  using assms writer_key_callgraph [of "out"]
  by (auto simp: export_apps_to_format_def Let_def export_write_methods_def
      split: sum.splits)

lemma fd_opened_text: "fd opened = ''{'' @ [dq] @ ''acfg_list'' @ [dq] @ '': [''"
  by (simp add: opened_def json_string_def json_escape_def dq_def)

text \<open>
  C9, amended. Every pass of the loop over the DEX objects appends the entries of its
  methods, joined as if the first of them were the first entry of the file (the comma
  state is reset whatever it was), and then one terminator. So for a run that completes,
  the file is a well-formed JSON text exactly when the application has exactly one DEX
  object; and with no DEX object the run completes with the opening fragment alone,
  which is not a JSON text.
\<close>

theorem terminator_once_per_dex:
  "(dex_iteration fx labels exts (G, s0) ms = Inr (G2, s1)
      \<longrightarrow> fd s1 = fd s0 @ entries True (map entry (exported fx ms))
                    @ terminator (cg_edges_s s1) (cg_edges_t s1) (method_names s1))
   \<and> (status (export_apps_to_format re_search a out methods_filter jar decompiler_type form) = None
      \<longrightarrow> (\<exists>t. data_json (export_apps_to_format re_search a out methods_filter jar
                              decompiler_type form) = Some t
                \<and> (json_valid t \<longleftrightarrow> length (dex_objects a) = 1)))
   \<and> (dex_objects a = []
      \<longrightarrow> status (export_apps_to_format re_search a out methods_filter jar decompiler_type form)
            = None
        \<and> data_json (export_apps_to_format re_search a out methods_filter jar decompiler_type form)
            = Some (''{'' @ [dq] @ ''acfg_list'' @ [dq] @ '': ['')
        \<and> \<not> json_valid (''{'' @ [dq] @ ''acfg_list'' @ [dq] @ '': [''))"
proof (intro conjI impI)
  assume "dex_iteration fx labels exts (G, s0) ms = Inr (G2, s1)"
  then show "fd s1 = fd s0 @ entries True (map entry (exported fx ms))
                    @ terminator (cg_edges_s s1) (cg_edges_t s1) (method_names s1)"
    by (rule dex_iteration_fd)
next
  assume "status (export_apps_to_format re_search a out methods_filter jar decompiler_type form)
            = None"
  then obtain s where s: "write_corpus (methods_filter_expr re_search methods_filter) a = Inr s"
    "data_json (export_apps_to_format re_search a out methods_filter jar decompiler_type form)
          = Some (fd s)"
    using export_status_None by blast
  then show "\<exists>t. data_json (export_apps_to_format re_search a out methods_filter jar
                              decompiler_type form) = Some t
                \<and> (json_valid t \<longleftrightarrow> length (dex_objects a) = 1)"
    using completed_valid_iff_one_dex [OF s(1)] by simp
next
  assume e: "dex_objects a = []"
  then have w: "write_corpus (methods_filter_expr re_search methods_filter) a = Inr opened"
    by (simp add: write_corpus_def)
  note c = export_completed [OF w, of out jar decompiler_type form]
  show "status (export_apps_to_format re_search a out methods_filter jar decompiler_type form)
            = None"
    using c by simp
  show "data_json (export_apps_to_format re_search a out methods_filter jar decompiler_type form)
            = Some (''{'' @ [dq] @ ''acfg_list'' @ [dq] @ '': ['')"
    using c fd_opened_text by simp
  show "\<not> json_valid (''{'' @ [dq] @ ''acfg_list'' @ [dq] @ '': ['')"
    using opened_not_valid fd_opened_text by simp
qed

section \<open>No exported method\<close>

lemma relabel_walk_abort:
  "relabel_walk labels exts is s = Inl (e, t) \<Longrightarrow> t = fd s \<and> (e = ValueError \<or> e = IndexError)"
proof (induction "is" arbitrary: s)
  case Nil
  then show ?case by simp
next
  case (Cons i "is")
  show ?case
  proof (cases "i < length exts \<and> i < length labels")
    case False
    then show ?thesis using Cons.prems by (auto simp: getitem_def split: if_splits)
  next
    case True
    show ?thesis
    proof (cases "exts ! i")
      case e: True
      then show ?thesis
        using Cons.prems True walk_external [of i exts labels "is" s]
          Cons.IH [of "s\<lparr>rename_nodes := (rename_nodes s)(i \<mapsto> counter s),
            counter := counter s + 1, method_names := method_names s @ [labels ! i]\<rparr>"]
        by simp
    next
      case e: False
      show ?thesis
      proof (cases "labels ! i \<in> set (method_names s)")
        case True
        then show ?thesis
          using Cons.prems \<open>i < length exts \<and> i < length labels\<close> e
            walk_internal [of i exts labels s "is"]
            Cons.IH [of "s\<lparr>rename_nodes :=
              (rename_nodes s)(i \<mapsto> index_of (labels ! i) (method_names s))\<rparr>"]
          by simp
      next
        case False
        then show ?thesis
          using Cons.prems \<open>i < length exts \<and> i < length labels\<close> e
          by (simp add: getitem_def list_index_def)
      qed
    qed
  qed
qed

lemma no_export_abort:
  assumes "dex_objects a = [ms]" and "exported fx ms = []" and "write_corpus fx a = Inl (e, t)"
  shows "t = fd opened \<and> (e = ValueError \<or> e = IndexError)"
proof -
  let ?labels = "cg_nodes_by_label a" and ?exts = "cg_nodes_by_external a"
  have it: "dex_iteration fx ?labels ?exts (call_graph a, opened) ms = Inl (e, t)"
    using assms(1,3) by (auto simp: write_corpus_def split: sum.splits)
  obtain s1 where s1: "dump_cfgs fx ms (opened\<lparr>first_iteration := True\<rparr>) = Inr s1"
    "fd s1 = fd opened"
    using dump_cfgs_completes [of fx ms "opened\<lparr>first_iteration := True\<rparr>"] assms(2) by auto
  let ?s2 = "s1\<lparr>rename_nodes := Map.empty, num_local_functions := length (method_names s1),
           counter := length (method_names s1)\<rparr>"
  have "relabel_walk ?labels ?exts [0..<length ?labels] ?s2 = Inl (e, t)"
    using it s1(1) by (auto simp: dex_iteration_def Let_def split: sum.splits)
  from relabel_walk_abort [OF this] show ?thesis using s1(2) by simp
qed

lemma relabel_with_identity:
  assumes "wf_digraph G" and "\<forall>u \<in> set (fst G). f u = u"
  shows "edges_of (relabel_with f G) = edges_of G"
proof -
  have "inj_on f (set (fst G))" using assms(2) by (auto simp: inj_on_def)
  then have "edges_of (relabel_with f G) = map (\<lambda>e. (f (fst e), f (snd e))) (edges_of G)"
    using assms(1) by (rule edges_of_relabel_inj [rotated])
  also have "\<dots> = map (\<lambda>e. e) (edges_of G)"
    using wf_edge_ends [OF assms(1)] assms(2) by (intro map_cong) auto
  finally show ?thesis by simp
qed

lemma all_external_run:
  assumes one: "dex_objects a = [ms]" and none: "exported fx ms = []"
    and w: "wf_digraph (call_graph a)"
    and len: "length (cg_nodes_by_label a) = length (nodes_of (call_graph a))"
    and lex: "length (cg_nodes_by_external a) = length (cg_nodes_by_label a)"
    and ext: "list_all (\<lambda>b. b) (cg_nodes_by_external a)"
  shows "\<exists>s. write_corpus fx a = Inr s
     \<and> method_names s = cg_nodes_by_label a
     \<and> cg_edges_s s = map (\<lambda>e. index_of (fst e) (nodes_of (call_graph a))) (edges_of (call_graph a))
     \<and> cg_edges_t s = map (\<lambda>e. index_of (snd e) (nodes_of (call_graph a))) (edges_of (call_graph a))"
proof -
  let ?labels = "cg_nodes_by_label a" and ?exts = "cg_nodes_by_external a"
  let ?G = "call_graph a"
  have allx: "\<And>i. i < length ?labels \<Longrightarrow> ?exts ! i"
    using ext lex by (simp add: list_all_length)
  have "\<exists>G2 s'. dex_iteration fx ?labels ?exts (?G, opened) ms = Inr (G2, s')"
    using none lex allx by (intro dex_iteration_succeeds) auto
  then obtain G2 s where it: "dex_iteration fx ?labels ?exts (?G, opened) ms = Inr (G2, s)"
    by blast
  have run: "write_corpus fx a = Inr s"
    using one it by (simp add: write_corpus_def)
  have filt: "filter (\<lambda>i. ?exts ! i) [0..<length ?labels] = [0..<length ?labels]"
    using allx by (simp add: filter_id_conv)
  have names: "method_names s = ?labels"
    using dex_iteration_names(1) [OF it] none filt by (simp add: opened_def map_nth)
  from it obtain s1 s3 where
    dump: "dump_cfgs fx ms (opened\<lparr>first_iteration := True\<rparr>) = Inr s1"
    and walk: "relabel_walk ?labels ?exts [0..<length ?labels]
       (s1\<lparr>rename_nodes := Map.empty, num_local_functions := length (method_names s1),
           counter := length (method_names s1)\<rparr>) = Inr s3"
    and g2: "G2 = relabel_nodes (convert_node_labels_to_integers ?G) (rename_nodes s3)"
    and s': "s = s3\<lparr>cg_edges_s := map fst (edges_of G2), cg_edges_t := map snd (edges_of G2),
             fd := fd s3 @ terminator (map fst (edges_of G2)) (map snd (edges_of G2))
                             (method_names s3)\<rparr>"
    by (rule dex_iteration_Inr) simp
  have n1: "method_names s1 = []"
    using dump_cfgs_completes [of fx ms "opened\<lparr>first_iteration := True\<rparr>"] none dump
    by (auto simp: opened_def)
  have ren: "rename_nodes s3 j = Some j" if "j < length ?labels" for j
    using relabel_walk_external_ids [OF walk, of j] that filt n1 by simp
  note c = convert_wf [OF w]
  have "edges_of G2 = edges_of (convert_node_labels_to_integers ?G)"
    unfolding g2 relabel_nodes_def
    using ren len by (intro relabel_with_identity [OF c(2)]) (simp add: c(1) nodes_of_def)
  then have e: "edges_of G2
      = map (\<lambda>e. (index_of (fst e) (fst ?G), index_of (snd e) (fst ?G))) (edges_of ?G)"
    using c(3) by simp
  show ?thesis
    using run names e by (auto simp: s' nodes_of_def comp_def)
qed

lemma empty_document_text:
  "fd opened @ terminator es et names =
     ''{'' @ json_string ''acfg_list'' @ '': [],'' @ [nl] @ '' '' @ json_string ''cg_edges''
       @ '': ['' @ str_list str_nat es @ '','' @ str_list str_nat et @ ''],'' @ [nl]
       @ json_string ''method_names'' @ '': '' @ str_list json_string names @ ''}''"
  by (simp add: opened_def terminator_def)

text \<open>
  C6, amended. For an application with exactly one DEX object of which no method is
  exported: a run that completes writes the document with the empty \<^verbatim>\<open>acfg_list\<close>, which
  is a well-formed JSON text, and \<^verbatim>\<open>method_names\<close> holds the labels of the external table
  entries; a run that does not complete ended in the relabelling walk with
  \<^verbatim>\<open>ValueError\<close> (a node that is not external, whose label is no registered name) or
  \<^verbatim>\<open>IndexError\<close>, and left only the opening fragment; and when the node tables are
  parallel to the nodes of a well-formed call graph and flag every node external, the run
  completes, \<^verbatim>\<open>method_names\<close> is the label table and the edge lists are the edges of the
  call graph by node position.
\<close>

theorem no_method_exported:
  assumes "dex_objects a = [ms]" and "exported fx ms = []"
  shows "(write_corpus fx a = Inr s
            \<longrightarrow> fd s = ''{'' @ json_string ''acfg_list'' @ '': [],'' @ [nl] @ '' ''
                    @ json_string ''cg_edges'' @ '': ['' @ str_list str_nat (cg_edges_s s) @ '',''
                    @ str_list str_nat (cg_edges_t s) @ ''],'' @ [nl]
                    @ json_string ''method_names'' @ '': ''
                    @ str_list json_string (method_names s) @ ''}''
              \<and> json_valid (fd s)
              \<and> method_names s
                  = map (\<lambda>i. cg_nodes_by_label a ! i)
                      (filter (\<lambda>i. cg_nodes_by_external a ! i)
                         [0..<length (cg_nodes_by_label a)]))
       \<and> (write_corpus fx a = Inl (e, t)
            \<longrightarrow> t = ''{'' @ json_string ''acfg_list'' @ '': [''
              \<and> (e = ValueError \<or> e = IndexError) \<and> \<not> json_valid t)
       \<and> (wf_digraph (call_graph a)
            \<and> length (cg_nodes_by_label a) = length (nodes_of (call_graph a))
            \<and> length (cg_nodes_by_external a) = length (cg_nodes_by_label a)
            \<and> list_all (\<lambda>b. b) (cg_nodes_by_external a)
            \<longrightarrow> (\<exists>s. write_corpus fx a = Inr s
                  \<and> method_names s = cg_nodes_by_label a
                  \<and> cg_edges_s s = map (\<lambda>e. index_of (fst e) (nodes_of (call_graph a)))
                                      (edges_of (call_graph a))
                  \<and> cg_edges_t s = map (\<lambda>e. index_of (snd e) (nodes_of (call_graph a)))
                                      (edges_of (call_graph a))))"
proof (intro conjI impI)
  assume run: "write_corpus fx a = Inr s"
  note v = one_dex_valid [OF assms(1) run]
  show "fd s = ''{'' @ json_string ''acfg_list'' @ '': [],'' @ [nl] @ '' ''
                    @ json_string ''cg_edges'' @ '': ['' @ str_list str_nat (cg_edges_s s) @ '',''
                    @ str_list str_nat (cg_edges_t s) @ ''],'' @ [nl]
                    @ json_string ''method_names'' @ '': ''
                    @ str_list json_string (method_names s) @ ''}''"
    using v(1) assms(2) empty_document_text [of "cg_edges_s s" "cg_edges_t s" "method_names s"]
    by simp
  show "json_valid (fd s)" by (rule v(2))
  obtain G2 where it: "dex_iteration fx (cg_nodes_by_label a) (cg_nodes_by_external a)
                 (call_graph a, opened) ms = Inr (G2, s)"
    using single_dex_run [OF assms(1) run] by blast
  show "method_names s = map (\<lambda>i. cg_nodes_by_label a ! i)
                      (filter (\<lambda>i. cg_nodes_by_external a ! i)
                         [0..<length (cg_nodes_by_label a)])"
    using dex_iteration_names(1) [OF it] assms(2) by (simp add: opened_def)
next
  assume ab: "write_corpus fx a = Inl (e, t)"
  note n = no_export_abort [OF assms ab]
  show "t = ''{'' @ json_string ''acfg_list'' @ '': [''" using n by (simp add: opened_def)
  show "e = ValueError \<or> e = IndexError" using n by simp
  show "\<not> json_valid t" using n opened_not_valid by simp
next
  assume "wf_digraph (call_graph a)
            \<and> length (cg_nodes_by_label a) = length (nodes_of (call_graph a))
            \<and> length (cg_nodes_by_external a) = length (cg_nodes_by_label a)
            \<and> list_all (\<lambda>b. b) (cg_nodes_by_external a)"
  then show "\<exists>s. write_corpus fx a = Inr s
                  \<and> method_names s = cg_nodes_by_label a
                  \<and> cg_edges_s s = map (\<lambda>e. index_of (fst e) (nodes_of (call_graph a)))
                                      (edges_of (call_graph a))
                  \<and> cg_edges_t s = map (\<lambda>e. index_of (snd e) (nodes_of (call_graph a)))
                                      (edges_of (call_graph a))"
    using all_external_run [OF assms] by blast
qed

lemma two_dex_completes:
  "status (export_apps_to_format (\<lambda>p t. True) app_two_dex ''out'' None False None None) = None"
  by code_simp

theorem terminator_once_per_dex_witness:
  "(\<exists>t. data_json (export_apps_to_format (\<lambda>p t. True) app_A_calls_X ''out'' None False None None)
          = Some t \<and> json_valid t)
   \<and> (\<exists>t. data_json (export_apps_to_format (\<lambda>p t. True) app_two_dex ''out'' None False None None)
          = Some t \<and> \<not> json_valid t)
   \<and> data_json (export_apps_to_format (\<lambda>p t. True) app_no_dex ''out'' None False None None)
          = Some (''{'' @ [dq] @ ''acfg_list'' @ [dq] @ '': ['')
   \<and> (\<exists>G2 s1. dex_iteration None [''A'', ''X''] [False, True]
                  (call_graph app_A_calls_X, opened\<lparr>first_iteration := False\<rparr>) [method_A]
                = Inr (G2, s1)
          \<and> fd s1 = fd opened @ entry method_A
                       @ terminator (cg_edges_s s1) (cg_edges_t s1) (method_names s1))"
proof -
  obtain s where s: "write_corpus (methods_filter_expr (\<lambda>p t. True) None) app_A_calls_X = Inr s"
    using app_A_calls_X_completes by (auto simp: methods_filter_expr_def)
  have one: "status (export_apps_to_format (\<lambda>p t. True) app_A_calls_X ''out'' None False None None)
      = None"
    using export_completed [OF s] by simp
  have e: "exported None [method_A] = [method_A]"
    by (simp add: exported_def passes_def method_A_def)
  have c1: "list_all consistent (exported None [method_A])"
    unfolding e by (simp add: consistent_def method_A_def)
  have c2: "\<forall>i<length [''A'', ''X'']. \<not> [False, True] ! i
      \<longrightarrow> [''A'', ''X''] ! i \<in> set (method_names (opened\<lparr>first_iteration := False\<rparr>))
            \<union> msig ` set (exported None [method_A])"
    unfolding e by (simp add: method_A_def msig_def less_Suc_eq)
  have "\<exists>G2 s1. dex_iteration None [''A'', ''X''] [False, True]
                  (call_graph app_A_calls_X, opened\<lparr>first_iteration := False\<rparr>) [method_A]
                = Inr (G2, s1)"
    using c1 c2 by (intro dex_iteration_succeeds) simp_all
  then obtain G2 s1 where it: "dex_iteration None [''A'', ''X''] [False, True]
                  (call_graph app_A_calls_X, opened\<lparr>first_iteration := False\<rparr>) [method_A]
                = Inr (G2, s1)"
    by blast
  note t1 = terminator_once_per_dex [where a = app_A_calls_X and re_search = "\<lambda>p t. True"
      and out = "''out''" and methods_filter = None and jar = False and decompiler_type = None
      and form = None and fx = None and labels = "[''A'', ''X'']" and exts = "[False, True]"
      and G = "call_graph app_A_calls_X" and ?s0.0 = "opened\<lparr>first_iteration := False\<rparr>"
      and ms = "[method_A]" and ?G2.0 = G2 and ?s1.0 = s1]
  note t2 = terminator_once_per_dex [where a = app_two_dex and re_search = "\<lambda>p t. True"
      and out = "''out''" and methods_filter = None and jar = False and decompiler_type = None
      and form = None]
  note t3 = terminator_once_per_dex [where a = app_no_dex and re_search = "\<lambda>p t. True"
      and out = "''out''" and methods_filter = None and jar = False and decompiler_type = None
      and form = None]
  have a: "\<exists>t. data_json (export_apps_to_format (\<lambda>p t. True) app_A_calls_X ''out'' None False
              None None) = Some t \<and> json_valid t"
    using t1 one by (auto simp: app_A_calls_X_def)
  have b: "\<exists>t. data_json (export_apps_to_format (\<lambda>p t. True) app_two_dex ''out'' None False
              None None) = Some t \<and> \<not> json_valid t"
    using t2 [THEN conjunct2, THEN conjunct1] two_dex_completes by (simp add: app_two_dex_def)
  have c: "data_json (export_apps_to_format (\<lambda>p t. True) app_no_dex ''out'' None False None None)
          = Some (''{'' @ [dq] @ ''acfg_list'' @ [dq] @ '': ['')"
    using t3 [THEN conjunct2, THEN conjunct2] by (simp add: app_no_dex_def)
  have d: "fd s1 = fd opened @ entry method_A
                       @ terminator (cg_edges_s s1) (cg_edges_t s1) (method_names s1)"
    using t1 it e by simp
  show ?thesis using a b c d it by blast
qed

text \<open>
  C9 as worded fails on a run that is cut short: \<open>app_bad\<close> has exactly one DEX object,
  its second method fails the feature check, the run ends with \<^verbatim>\<open>AssertionError\<close> and the
  file, which holds the opening fragment and one entry, is not a JSON text.
\<close>

theorem aborted_single_dex_counterexample:
  "length (dex_objects app_bad) = 1
   \<and> status (export_apps_to_format (\<lambda>p t. True) app_bad ''out'' None False None None)
       = Some AssertionError
   \<and> (case data_json (export_apps_to_format (\<lambda>p t. True) app_bad ''out'' None False None None) of
         None \<Rightarrow> False
       | Some t \<Rightarrow> \<not> json_valid t)"
  by code_simp

theorem no_method_exported_witness:
  "exported never [method_A] = []
   \<and> (\<exists>s. write_corpus never app_externals = Inr s
         \<and> method_names s = [''X'', ''Y''] \<and> cg_edges_s s = [1] \<and> cg_edges_t s = [0]
         \<and> json_valid (fd s)
         \<and> fd s = ''{'' @ json_string ''acfg_list'' @ '': [],'' @ [nl] @ '' ''
                    @ json_string ''cg_edges'' @ '': ['' @ str_list str_nat (cg_edges_s s) @ '',''
                    @ str_list str_nat (cg_edges_t s) @ ''],'' @ [nl]
                    @ json_string ''method_names'' @ '': ''
                    @ str_list json_string (method_names s) @ ''}'')
   \<and> write_corpus never app_A_calls_X = Inl (ValueError, ''{'' @ json_string ''acfg_list'' @ '': ['')"
proof -
  have e: "exported never [method_A] = []"
    by (simp add: exported_def passes_def never_def)
  have d1: "dex_objects app_externals = [[method_A]]" by (simp add: app_externals_def)
  have d2: "dex_objects app_A_calls_X = [[method_A]]" by (simp add: app_A_calls_X_def)
  have w: "wf_digraph (call_graph app_externals)
            \<and> length (cg_nodes_by_label app_externals) = length (nodes_of (call_graph app_externals))
            \<and> length (cg_nodes_by_external app_externals) = length (cg_nodes_by_label app_externals)
            \<and> list_all (\<lambda>b. b) (cg_nodes_by_external app_externals)"
    by (simp add: app_externals_def wf_digraph_def nodes_of_def)
  note t = no_method_exported [OF d1 e]
  from t [of undefined undefined undefined] w obtain s where
    s: "write_corpus never app_externals = Inr s" "method_names s = cg_nodes_by_label app_externals"
    "cg_edges_s s = map (\<lambda>e. index_of (fst e) (nodes_of (call_graph app_externals)))
                       (edges_of (call_graph app_externals))"
    "cg_edges_t s = map (\<lambda>e. index_of (snd e) (nodes_of (call_graph app_externals)))
                       (edges_of (call_graph app_externals))"
    by blast
  have s': "method_names s = [''X'', ''Y'']" "cg_edges_s s = [1]" "cg_edges_t s = [0]"
    using s(2-4) by (simp_all add: app_externals_def edges_of_def nodes_of_def)
  have "(case write_corpus never app_A_calls_X of
           Inl p \<Rightarrow> p = (ValueError, fd opened) | Inr s \<Rightarrow> False)"
    by code_simp
  then have ab: "write_corpus never app_A_calls_X = Inl (ValueError, fd opened)"
    by (auto split: sum.splits)
  have "fd opened = ''{'' @ json_string ''acfg_list'' @ '': [''"
    using no_method_exported [OF d2 e, of undefined ValueError "fd opened"] ab by simp
  then show ?thesis
    using e s(1) s' t [of s undefined undefined] ab by auto
qed

text \<open>
  C6 as worded fails: no method of \<open>app_A_calls_X\<close> passes the filter, its call graph has
  the node \<open>A\<close> that is not external and whose name was never registered, the walk raises
  \<^verbatim>\<open>ValueError\<close> and the file holds only the opening fragment.
\<close>

theorem unregistered_node_counterexample:
  "exported (methods_filter_expr (\<lambda>p t. False) (Some ''nomatch'')) [method_A] = []
   \<and> status (export_apps_to_format (\<lambda>p t. False) app_A_calls_X ''out'' (Some ''nomatch'') False
               None None) = Some ValueError
   \<and> data_json (export_apps_to_format (\<lambda>p t. False) app_A_calls_X ''out'' (Some ''nomatch'') False
               None None) = Some (''{'' @ [dq] @ ''acfg_list'' @ [dq] @ '': ['')
   \<and> \<not> json_valid (''{'' @ [dq] @ ''acfg_list'' @ [dq] @ '': ['')"
  by code_simp

section \<open>The format check of the export\<close>








end
